theory Spec2Isabelle
  imports Complex_Main "HOL-Library.Multiset" "HOL-Library.AList"
begin

section \<open>Exceptions of the embedded Python code\<close>

text \<open>
  Every raise of the source is a value: a computation returns \<open>exn + 'a\<close>, with
  \<open>Inl\<close> the exception that leaves the function.
\<close>

datatype exn =
    RuntimeError
  | IndexError
  | KeyError
  | AssertionError
  | FileNotFoundError
  | KrakenInputException
  | UsageError

section \<open>kraken/contrib/repolygonize.py: the main loop of \<open>cli\<close>\<close>












section \<open>kraken/ketos.py: the evaluation loop of \<open>segtest\<close>\<close>

subsection \<open>Tensors\<close>

text \<open>
  A tensor of shape [classes, pixels] is the list of its rows; one of shape
  [classes, height, width] is a list of grids. The statistics are tensors of
  \<open>torch.double\<close>: they hold counts of pixels and sums of counts, which doubles
  represent exactly, and are rationals here. A division by zero raises nothing in
  torch and yields nan or inf: that is \<open>None\<close>, and \<open>None\<close> stays \<open>None\<close> through
  every later sum, product and mean.
\<close>

type_synonym mask = "bool list list"

definition fdiv :: "rat \<Rightarrow> rat \<Rightarrow> rat option" where
  "fdiv a b = (if b = 0 then None else Some (a / b))"

definition dsum :: "rat option list \<Rightarrow> rat option" where
  "dsum xs = (if list_all (\<lambda>x. x \<noteq> None) xs then Some (sum_list (map the xs)) else None)"

text \<open>\<open>torch.mean\<close>; the mean of an empty tensor is nan.\<close>

definition dmean :: "rat option list \<Rightarrow> rat option" where
  "dmean xs = (case dsum xs of None \<Rightarrow> None | Some s \<Rightarrow> fdiv s (of_nat (length xs)))"

definition dmul :: "rat option \<Rightarrow> rat option \<Rightarrow> rat option" where
  "dmul a b = (case a of None \<Rightarrow> None | Some x \<Rightarrow> (case b of None \<Rightarrow> None | Some y \<Rightarrow> Some (x * y)))"

text \<open>\<open>.sum(dtype=torch.double)\<close> of a boolean vector.\<close>

definition count :: "bool list \<Rightarrow> rat" where
  "count bs = of_nat (length (filter (\<lambda>b. b) bs))"

text \<open>
  \<open>a & b\<close>, \<open>a | b\<close> and \<open>torch.eq(a, b)\<close> on two tensors of rank two. The loader
  and the model of one run are built from the same class mapping, so their tensors
  have the same number of rows; any two shapes that differ are the RuntimeError here
  (torch would first try to expand a dimension of size one).
\<close>

definition ew :: "(bool \<Rightarrow> bool \<Rightarrow> bool) \<Rightarrow> mask \<Rightarrow> mask \<Rightarrow> exn + mask" where
  "ew f a b =
     (if map length a = map length b then Inr (map2 (map2 f) a b) else Inl RuntimeError)"

text \<open>\<open>t[idxs]\<close> with a list of row indices.\<close>

definition index_rows :: "'a list \<Rightarrow> nat list \<Rightarrow> exn + 'a list" where
  "index_rows t idxs =
     (if list_all (\<lambda>i. i < length t) idxs then Inr (map ((!) t) idxs) else Inl IndexError)"

text \<open>\<open>t.size(1)\<close> of a tensor with at least one row.\<close>

definition size1 :: "'a list list \<Rightarrow> nat" where
  "size1 t = (case t of [] \<Rightarrow> 0 | r # _ \<Rightarrow> length r)"

text \<open>\<open>rows.sum(dim=0, dtype=torch.bool)\<close>: the OR of the rows, pixel by pixel.\<close>

definition any_rows :: "mask \<Rightarrow> bool list" where
  "any_rows rows = map (\<lambda>j. list_ex (\<lambda>r. r ! j) rows) [0..<size1 rows]"

text \<open>\<open>torch.stack\<close>: the list must not be empty and every entry has the first one's size.\<close>

definition stack :: "'a list list \<Rightarrow> exn + 'a list list" where
  "stack ts =
     (if ts = [] then Inl RuntimeError
      else if list_all (\<lambda>t. length t = length (hd ts)) ts then Inr ts
      else Inl RuntimeError)"

text \<open>A list comprehension whose body may raise: the first exception leaves it.\<close>

fun mapE :: "('a \<Rightarrow> exn + 'b) \<Rightarrow> 'a list \<Rightarrow> exn + 'b list" where
  "mapE f [] = Inr []"
| "mapE f (x # xs) =
     (case f x of Inl e \<Rightarrow> Inl e
      | Inr v \<Rightarrow> (case mapE f xs of Inl e \<Rightarrow> Inl e | Inr vs \<Rightarrow> Inr (v # vs)))"

subsection \<open>Statistics of one page\<close>

record confusion =
  ov_intersections :: "rat list list"
  ov_unions :: "rat list list"

record category =
  cat_intersections :: rat
  cat_unions :: rat
  confusion :: "confusion option"

record page =
  intersections :: "rat list"
  unions :: "rat list"
  corrects :: "rat list"
  cls_cnt :: "rat list"
  all_n :: rat
  baselines :: "category option"
  regions :: "category option"

text \<open>
  One entry of the list comprehensions of \<open>_compute_iou_overlap\<close>, lines 1425 to 1431
  and 1437 to 1443: the row \<open>y[line_idx]\<close> repeated \<open>len(classes_idx) - 1\<close> times,
  combined with the rows of \<open>pred\<close> at the other indices, summed along the pixels.
\<close>

definition overlap_row ::
  "(bool \<Rightarrow> bool \<Rightarrow> bool) \<Rightarrow> nat list \<Rightarrow> mask \<Rightarrow> mask \<Rightarrow> nat \<Rightarrow> exn + rat list" where
  "overlap_row f classes_idx y pred line_idx =
     (if line_idx < length y then
        (case index_rows pred (filter (\<lambda>subline_idx. subline_idx \<noteq> line_idx) classes_idx) of
           Inl e \<Rightarrow> Inl e
         | Inr others \<Rightarrow>
             (case ew f (replicate (length classes_idx - 1) (y ! line_idx)) others of
                Inl e \<Rightarrow> Inl e
              | Inr m \<Rightarrow> Inr (map count m)))
      else Inl IndexError)"

definition compute_iou_overlap :: "nat list \<Rightarrow> mask \<Rightarrow> mask \<Rightarrow> exn + confusion" where
  "compute_iou_overlap classes_idx y pred =
     (case mapE (overlap_row (\<and>) classes_idx y pred) classes_idx of
        Inl e \<Rightarrow> Inl e
      | Inr is \<Rightarrow>
     (case stack is of
        Inl e \<Rightarrow> Inl e
      | Inr is' \<Rightarrow>
     (case mapE (overlap_row (\<or>) classes_idx y pred) classes_idx of
        Inl e \<Rightarrow> Inl e
      | Inr us \<Rightarrow>
     (case stack us of
        Inl e \<Rightarrow> Inl e
      | Inr us' \<Rightarrow> Inr \<lparr>ov_intersections = is', ov_unions = us'\<rparr>))))"

text \<open>
  The block under \<open>if lines_idx:\<close>, lines 1471 to 1479, and its twin for the regions,
  lines 1481 to 1488: the rows of the category are reduced by OR on each side, and
  a category of more than one class gets its confusion matrices.
\<close>

definition category_stats :: "nat list \<Rightarrow> mask \<Rightarrow> mask \<Rightarrow> exn + category" where
  "category_stats idx y pred =
     (case index_rows y idx of
        Inl e \<Rightarrow> Inl e
      | Inr y_rows \<Rightarrow>
     (case index_rows pred idx of
        Inl e \<Rightarrow> Inl e
      | Inr pred_rows \<Rightarrow>
     (case ew (\<and>) [any_rows y_rows] [any_rows pred_rows] of
        Inl e \<Rightarrow> Inl e
      | Inr i \<Rightarrow>
     (case ew (\<or>) [any_rows y_rows] [any_rows pred_rows] of
        Inl e \<Rightarrow> Inl e
      | Inr u \<Rightarrow>
     (case (if length idx > 1 then map_sum id Some (compute_iou_overlap idx y pred)
            else Inr None) of
        Inl e \<Rightarrow> Inl e
      | Inr c \<Rightarrow>
          Inr \<lparr>cat_intersections = count (concat i), cat_unions = count (concat u),
               confusion = c\<rparr>)))))"

text \<open>
  Lines 1463 to 1488: the statistics of one page from the two boolean tensors of
  shape [classes, pixels].
\<close>

definition page_stats :: "nat list \<Rightarrow> nat list \<Rightarrow> mask \<Rightarrow> mask \<Rightarrow> exn + page" where
  "page_stats lines_idx regions_idx y pred =
     (case ew (\<and>) y pred of
        Inl e \<Rightarrow> Inl e
      | Inr i \<Rightarrow>
     (case ew (\<or>) y pred of
        Inl e \<Rightarrow> Inl e
      | Inr u \<Rightarrow>
     (case ew (=) y pred of
        Inl e \<Rightarrow> Inl e
      | Inr c \<Rightarrow>
     (case (if lines_idx \<noteq> [] then map_sum id Some (category_stats lines_idx y pred)
            else Inr None) of
        Inl e \<Rightarrow> Inl e
      | Inr b \<Rightarrow>
     (case (if regions_idx \<noteq> [] then map_sum id Some (category_stats regions_idx y pred)
            else Inr None) of
        Inl e \<Rightarrow> Inl e
      | Inr r \<Rightarrow>
          Inr \<lparr>intersections = map count i, unions = map count u, corrects = map count c,
               cls_cnt = map count y, all_n = of_nat (size1 y),
               baselines = b, regions = r\<rparr>)))))"

subsection \<open>From the network output to the two boolean tensors\<close>

text \<open>
  The batch size is one, so the leading dimension of \<open>pred\<close> and of \<open>y\<close> is left out:
  both are lists of grids, one per class. \<open>size_h\<close> and \<open>size_w\<close> are \<open>.size(2)\<close> and
  \<open>.size(3)\<close> of the tensor with its batch dimension.
\<close>

definition size_h :: "'a list list list \<Rightarrow> nat" where
  "size_h t = (case t of [] \<Rightarrow> 0 | g # _ \<Rightarrow> length g)"

definition size_w :: "'a list list list \<Rightarrow> nat" where
  "size_w t = (case t of [] \<Rightarrow> 0 | g # _ \<Rightarrow> size1 g)"

text \<open>
  \<open>F.interpolate(y, size=(h, w))\<close> in its default mode, nearest neighbour: output
  pixel \<open>d\<close> reads the input pixel \<open>floor(d * in_size / out_size)\<close>, capped at the last
  one. torch computes that quotient in single precision; the model takes it exactly.
  Sizes of zero are refused.
\<close>

definition nearest :: "nat \<Rightarrow> nat \<Rightarrow> nat \<Rightarrow> nat" where
  "nearest in_size out_size d = min (d * in_size div out_size) (in_size - 1)"

definition interpolate :: "nat \<times> nat \<Rightarrow> 'a list list list \<Rightarrow> exn + 'a list list list" where
  "interpolate sz t =
     (if size_h t = 0 \<or> size_w t = 0 \<or> fst sz = 0 \<or> snd sz = 0 then Inl RuntimeError
      else Inr (map (\<lambda>g. map (\<lambda>i. map (\<lambda>j. g ! nearest (size_h t) (fst sz) i
                                               ! nearest (size_w t) (snd sz) j)
                                     [0..<snd sz])
                          [0..<fst sz]) t))"

text \<open>\<open>.bool()\<close>: every value other than zero is true.\<close>

definition to_bool :: "rat list list list \<Rightarrow> bool list list list" where
  "to_bool t = map (map (map (\<lambda>v. v \<noteq> 0))) t"

text \<open>\<open>pred > threshold\<close>, line 1460.\<close>

definition binarize :: "rat \<Rightarrow> rat list list list \<Rightarrow> bool list list list" where
  "binarize threshold pred = map (map (map (\<lambda>v. threshold < v))) pred"

text \<open>\<open>t.view(t.size(0), -1)\<close> of a tensor of shape [classes, height, width].\<close>

definition view_rows :: "'a list list list \<Rightarrow> 'a list list" where
  "view_rows t = map concat t"

text \<open>
  \<open>pred.squeeze()\<close> followed by \<open>pred.view(pred.size(0), -1)\<close>, lines 1460 and 1461.
  \<open>squeeze\<close> removes every dimension of size one, not only the batch: with two classes
  or more the result is the tensor of shape [classes, pixels]; with a single class
  the class dimension goes too, and the rows of the result are the rows of the grid
  (or its single pixels, or nothing to index at all).
\<close>

definition squeeze_view :: "'a list list list \<Rightarrow> exn + 'a list list" where
  "squeeze_view t =
     (if length t = 1 then
        (if size_h t = 1 then
           (if size_w t = 1 then Inl IndexError else Inr (map (\<lambda>v. [v]) (hd (hd t))))
         else Inr (hd t))
      else Inr (view_rows t))"

text \<open>
  The body of the \<open>try\<close>, lines 1457 to 1488, for one batch \<open>(x, y)\<close>. The network
  \<open>nn.nn\<close> is a parameter: it returns the confidence maps or raises.
\<close>

definition try_body ::
  "('img \<Rightarrow> exn + rat list list list) \<Rightarrow> rat \<Rightarrow> nat list \<Rightarrow> nat list \<Rightarrow>
   'img \<times> rat list list list \<Rightarrow> exn + page" where
  "try_body nn threshold lines_idx regions_idx batch =
     (case nn (fst batch) of
        Inl e \<Rightarrow> Inl e
      | Inr pred \<Rightarrow>
     (case interpolate (size_h pred, size_w pred) (snd batch) of
        Inl e \<Rightarrow> Inl e
      | Inr y \<Rightarrow>
     (case squeeze_view (binarize threshold pred) of
        Inl e \<Rightarrow> Inl e
      | Inr pred' \<Rightarrow> page_stats lines_idx regions_idx (view_rows (to_bool y)) pred')))"

text \<open>
  The loop over the batches, lines 1453 to 1498. The state is the list \<open>pages\<close> and
  the counter \<open>batches\<close>; the two exceptions the loop catches skip the page and
  count it out, every other one ends the run.
\<close>

fun segtest_loop ::
  "('img \<Rightarrow> exn + rat list list list) \<Rightarrow> rat \<Rightarrow> nat list \<Rightarrow> nat list \<Rightarrow>
   ('img \<times> rat list list list) list \<Rightarrow> page list \<times> int \<Rightarrow> exn + page list \<times> int" where
  "segtest_loop nn threshold lines_idx regions_idx [] st = Inr st"
| "segtest_loop nn threshold lines_idx regions_idx (batch # ds_loader) (pages, batches) =
     (case try_body nn threshold lines_idx regions_idx batch of
        Inr p \<Rightarrow> segtest_loop nn threshold lines_idx regions_idx ds_loader (pages @ [p], batches)
      | Inl FileNotFoundError \<Rightarrow>
          segtest_loop nn threshold lines_idx regions_idx ds_loader (pages, batches - 1)
      | Inl KrakenInputException \<Rightarrow>
          segtest_loop nn threshold lines_idx regions_idx ds_loader (pages, batches - 1)
      | Inl e \<Rightarrow> Inl e)"

subsection \<open>Totals over the pages and the metrics, lines 1500 to 1517\<close>

text \<open>\<open>torch.finfo(torch.float).eps\<close>, the machine epsilon of single precision.\<close>

definition smooth :: rat where
  "smooth = 1 / 2 ^ 23"

text \<open>\<open>torch.stack(vs, -1).sum(dim=-1)\<close>: the sum of the vectors, entry by entry.\<close>

definition sum_vecs :: "rat list list \<Rightarrow> rat list" where
  "sum_vecs vs = map (\<lambda>i. sum_list (map (\<lambda>v. v ! i) vs)) [0..<length (hd vs)]"

definition stack_sum :: "rat list list \<Rightarrow> exn + rat list" where
  "stack_sum vs = (case stack vs of Inl e \<Rightarrow> Inl e | Inr ts \<Rightarrow> Inr (sum_vecs ts))"

text \<open>\<open>torch.stack(xs).sum()\<close> of scalars.\<close>

definition stack_sum_scalars :: "rat list \<Rightarrow> exn + rat" where
  "stack_sum_scalars xs = (if xs = [] then Inl RuntimeError else Inr (sum_list xs))"

definition agg_corrects :: "page list \<Rightarrow> exn + rat list" where
  "agg_corrects pages = stack_sum (map corrects pages)"

definition agg_all_n :: "page list \<Rightarrow> exn + rat" where
  "agg_all_n pages = stack_sum_scalars (map all_n pages)"

definition agg_intersections :: "page list \<Rightarrow> exn + rat list" where
  "agg_intersections pages = stack_sum (map intersections pages)"

definition agg_unions :: "page list \<Rightarrow> exn + rat list" where
  "agg_unions pages = stack_sum (map unions pages)"

text \<open>
  Line 1516: \<open>torch.stack([x['cls_cnt'] for x in pages]).sum()\<close>. The stack has
  shape [pages, classes] and \<open>.sum()\<close> without a dimension adds up all of it.
\<close>

definition agg_cls_cnt :: "page list \<Rightarrow> exn + rat" where
  "agg_cls_cnt pages =
     (case stack (map cls_cnt pages) of Inl e \<Rightarrow> Inl e | Inr ts \<Rightarrow> Inr (sum_list (concat ts)))"

text \<open>Line 1505: \<open>class_pixel_accuracy = corrects / all_n\<close>.\<close>

definition class_pixel_accuracy :: "page list \<Rightarrow> exn + rat option list" where
  "class_pixel_accuracy pages =
     (case agg_corrects pages of
        Inl e \<Rightarrow> Inl e
      | Inr c \<Rightarrow>
     (case agg_all_n pages of
        Inl e \<Rightarrow> Inl e
      | Inr n \<Rightarrow> Inr (map (\<lambda>v. fdiv v n) c)))"

definition mean_accuracy :: "page list \<Rightarrow> exn + rat option" where
  "mean_accuracy pages = map_sum id dmean (class_pixel_accuracy pages)"

text \<open>Line 1513: \<open>class_iu = (intersections + smooth) / (unions + smooth)\<close>.\<close>

definition class_iu :: "page list \<Rightarrow> exn + rat option list" where
  "class_iu pages =
     (case agg_intersections pages of
        Inl e \<Rightarrow> Inl e
      | Inr i \<Rightarrow>
     (case agg_unions pages of
        Inl e \<Rightarrow> Inl e
      | Inr u \<Rightarrow>
          if length i = length u
          then Inr (map2 (\<lambda>a b. fdiv (a + smooth) (b + smooth)) i u)
          else Inl RuntimeError))"

definition mean_iu :: "page list \<Rightarrow> exn + rat option" where
  "mean_iu pages = map_sum id dmean (class_iu pages)"

text \<open>
  Line 1517: \<open>freq_iu = torch.sum(cls_cnt / cls_cnt.sum() * class_iu.sum())\<close>, where
  \<open>cls_cnt\<close> is the scalar of line 1516, so that \<open>cls_cnt.sum()\<close> is \<open>cls_cnt\<close> again.
\<close>

definition freq_iu :: "page list \<Rightarrow> exn + rat option" where
  "freq_iu pages =
     (case class_iu pages of
        Inl e \<Rightarrow> Inl e
      | Inr ciu \<Rightarrow>
     (case agg_cls_cnt pages of
        Inl e \<Rightarrow> Inl e
      | Inr cnt \<Rightarrow> Inr (dmul (fdiv cnt cnt) (dsum ciu))))"

subsection \<open>Metrics of a category, lines 1542 to 1604\<close>

text \<open>\<open>[x[category][key] for x in pages]\<close>: a page without the category is a KeyError.\<close>

definition cat_values :: "(page \<Rightarrow> category option) \<Rightarrow> (category \<Rightarrow> 'a) \<Rightarrow> page list \<Rightarrow> exn + 'a list" where
  "cat_values cat key pages =
     mapE (\<lambda>x. case cat x of None \<Rightarrow> Inl KeyError | Some c \<Rightarrow> Inr (key c)) pages"

text \<open>
  Lines 1576 to 1578 and 1593 to 1595: the totals of a category and its
  class-independent IoU.
\<close>

definition agg_cat_intersections :: "(page \<Rightarrow> category option) \<Rightarrow> page list \<Rightarrow> exn + rat" where
  "agg_cat_intersections cat pages =
     (case cat_values cat cat_intersections pages of
        Inl e \<Rightarrow> Inl e
      | Inr is \<Rightarrow> stack_sum_scalars is)"

definition agg_cat_unions :: "(page \<Rightarrow> category option) \<Rightarrow> page list \<Rightarrow> exn + rat" where
  "agg_cat_unions cat pages =
     (case cat_values cat cat_unions pages of
        Inl e \<Rightarrow> Inl e
      | Inr us \<Rightarrow> stack_sum_scalars us)"


text \<open>\<open>[x[category]["confusion"][key] for x in pages]\<close>\<close>

definition confusion_values ::
  "(page \<Rightarrow> category option) \<Rightarrow> (confusion \<Rightarrow> 'a) \<Rightarrow> page list \<Rightarrow> exn + 'a list" where
  "confusion_values cat key pages =
     mapE (\<lambda>x. case cat x of
                  None \<Rightarrow> Inl KeyError
                | Some c \<Rightarrow> (case confusion c of None \<Rightarrow> Inl KeyError | Some m \<Rightarrow> Inr (key m)))
          pages"

text \<open>\<open>torch.stack(ms, dim=-1).sum(dim=-1)\<close> of matrices, which must have one shape.\<close>

definition sum_mats :: "rat list list list \<Rightarrow> rat list list" where
  "sum_mats ms =
     map (\<lambda>i. map (\<lambda>j. sum_list (map (\<lambda>m. m ! i ! j) ms)) [0..<length (hd ms ! i)])
         [0..<length (hd ms)]"

definition stack_sum_mats :: "rat list list list \<Rightarrow> exn + rat list list" where
  "stack_sum_mats ms =
     (if ms = [] then Inl RuntimeError
      else if list_all (\<lambda>m. map length m = map length (hd ms)) ms then Inr (sum_mats ms)
      else Inl RuntimeError)"

text \<open>Lines 1548 to 1555: the totals of the confusion matrices.\<close>

definition agg_ov_intersections ::
  "(page \<Rightarrow> category option) \<Rightarrow> page list \<Rightarrow> exn + rat list list" where
  "agg_ov_intersections cat pages =
     (case confusion_values cat ov_intersections pages of
        Inl e \<Rightarrow> Inl e
      | Inr is \<Rightarrow> stack_sum_mats is)"

definition agg_ov_unions ::
  "(page \<Rightarrow> category option) \<Rightarrow> page list \<Rightarrow> exn + rat list list" where
  "agg_ov_unions cat pages =
     (case confusion_values cat ov_unions pages of
        Inl e \<Rightarrow> Inl e
      | Inr us \<Rightarrow> stack_sum_mats us)"

text \<open>Line 1556: \<open>ov_iu = (ov_intersections + smooth) / (ov_unions + smooth)\<close>.\<close>

definition ov_iu :: "(page \<Rightarrow> category option) \<Rightarrow> page list \<Rightarrow> exn + rat option list list" where
  "ov_iu cat pages =
     (case agg_ov_intersections cat pages of
        Inl e \<Rightarrow> Inl e
      | Inr i \<Rightarrow>
     (case agg_ov_unions cat pages of
        Inl e \<Rightarrow> Inl e
      | Inr u \<Rightarrow>
          if map length i = map length u
          then Inr (map2 (map2 (\<lambda>a b. fdiv (a + smooth) (b + smooth))) i u)
          else Inl RuntimeError))"

text \<open>
  A cell of the table, line 1563. The parameter \<open>fmt\<close> is Python's formatting
  \<open>f"{v:.3f}"\<close> of a double, nan included.
\<close>

definition cell :: "(rat option \<Rightarrow> string) \<Rightarrow> rat option \<Rightarrow> string" where
  "cell fmt v = (if v \<noteq> Some 1 then fmt v else [])"

text \<open>\<open>m[i][j]\<close> on the nested list \<open>ov_iu\<close>.\<close>

definition get2 :: "'a list list \<Rightarrow> nat \<Rightarrow> nat \<Rightarrow> exn + 'a" where
  "get2 m i j =
     (if i < length m then (if j < length (m ! i) then Inr (m ! i ! j) else Inl IndexError)
      else Inl IndexError)"

text \<open>
  One row of the table, lines 1559 to 1572: a Python dict, kept as the list of its
  items in insertion order. A key that is set again keeps its place and takes the
  new value. \<open>inv_class_names\<close> is the dict from class index to class name.
\<close>

definition dict_set :: "string \<times> string \<Rightarrow> (string \<times> string) list \<Rightarrow> (string \<times> string) list" where
  "dict_set kv d = AList.update (fst kv) (snd kv) d"

definition table_row ::
  "(rat option \<Rightarrow> string) \<Rightarrow> (nat \<rightharpoonup> string) \<Rightarrow> nat list \<Rightarrow> rat option list list \<Rightarrow>
   nat \<times> nat \<Rightarrow> exn + (string \<times> string) list" where
  "table_row fmt inv_class_names classes iu row =
     (case inv_class_names (snd row) of
        None \<Rightarrow> Inl KeyError
      | Some source \<Rightarrow>
     (case mapE (\<lambda>col. case inv_class_names (snd col) of
                         None \<Rightarrow> Inl KeyError
                       | Some name \<Rightarrow>
                           (case get2 iu (fst row) (fst col) of
                              Inl e \<Rightarrow> Inl e
                            | Inr v \<Rightarrow> Inr (name, cell fmt v)))
                (enumerate 0 (filter (\<lambda>x. x \<noteq> snd row) classes)) of
        Inl e \<Rightarrow> Inl e
      | Inr items \<Rightarrow> Inr (fold dict_set items [(''Source'', source)])))"

definition compute_overlap_iou ::
  "(rat option \<Rightarrow> string) \<Rightarrow> (nat \<rightharpoonup> string) \<Rightarrow> page list \<Rightarrow> nat list \<Rightarrow>
   (page \<Rightarrow> category option) \<Rightarrow> exn + (string \<times> string) list list" where
  "compute_overlap_iou fmt inv_class_names pages classes cat =
     (case ov_iu cat pages of
        Inl e \<Rightarrow> Inl e
      | Inr iu \<Rightarrow> mapE (table_row fmt inv_class_names classes iu) (enumerate 0 classes))"

subsection \<open>The whole command\<close>






subsection \<open>Pages the loop can accumulate, and sample data\<close>

text \<open>
  A page of statistics as line 1463 appends it: the result of \<open>page_stats\<close> on two
  tensors of \<open>C\<close> classes over at least one pixel.
\<close>

definition accumulated :: "nat list \<Rightarrow> nat list \<Rightarrow> nat \<Rightarrow> page \<Rightarrow> bool" where
  "accumulated lines_idx regions_idx C p \<longleftrightarrow>
     (\<exists>y pred. length y = C \<and> 0 < size1 y \<and> (\<forall>row \<in> set y. length row = size1 y) \<and>
        page_stats lines_idx regions_idx y pred = Inr p)"

text \<open>The sum over the pages of entry \<open>c\<close> of a per-class statistic.\<close>

definition page_total :: "(page \<Rightarrow> rat list) \<Rightarrow> page list \<Rightarrow> nat \<Rightarrow> rat" where
  "page_total key pages c = sum_list (map (\<lambda>p. key p ! c) pages)"

text \<open>
  Two classes on a grid of two by two pixels, flattened: the first class has two
  pixels of ground truth of which one is predicted, the second class is absent on
  both sides.
\<close>

definition demo_y :: mask where
  "demo_y = [[True, True, False, False], [False, False, False, False]]"

definition demo_pred :: mask where
  "demo_pred = [[True, False, False, False], [False, False, False, False]]"

definition demo_page :: page where
  "demo_page =
     \<lparr>intersections = [1, 0], unions = [2, 0], corrects = [3, 4], cls_cnt = [2, 0], all_n = 4,
      baselines = Some \<lparr>cat_intersections = 1, cat_unions = 2,
                        confusion = Some \<lparr>ov_intersections = [[0], [0]],
                                          ov_unions = [[2], [1]]\<rparr>\<rparr>,
      regions = None\<rparr>"

text \<open>A page on which both classes are predicted exactly: one pixel, first class only.\<close>

definition exact_y :: mask where
  "exact_y = [[True], [False]]"

definition exact_page :: page where
  "exact_page =
     \<lparr>intersections = [1, 0], unions = [1, 0], corrects = [1, 1], cls_cnt = [1, 0], all_n = 1,
      baselines = Some \<lparr>cat_intersections = 1, cat_unions = 1,
                        confusion = Some \<lparr>ov_intersections = [[0], [0]],
                                          ov_unions = [[1], [1]]\<rparr>\<rparr>,
      regions = None\<rparr>"


text \<open>
  A test set of two batches over two classes. The network fails on the first image
  and returns confidences on a grid of one by two pixels for the second, whose
  ground truth is one by four.
\<close>

definition demo_nn :: "nat \<Rightarrow> exn + rat list list list" where
  "demo_nn x = (if x = 0 then Inl FileNotFoundError else Inr [[[1 / 2, 3 / 4]], [[1 / 4, 1]]])"

definition demo_idx :: "nat list" where
  "demo_idx = [0, 1]"

definition failing_batch :: "nat \<times> rat list list list" where
  "failing_batch = (0, [[[1]]])"

definition loading_batch :: "nat \<times> rat list list list" where
  "loading_batch = (1, [[[1, 0, 0, 0]], [[0, 0, 1, 1]]])"


definition loop_page :: page where
  "loop_page =
     \<lparr>intersections = [0, 1], unions = [2, 1], corrects = [0, 2], cls_cnt = [1, 1], all_n = 2,
      baselines = Some \<lparr>cat_intersections = 1, cat_unions = 2,
                        confusion = Some \<lparr>ov_intersections = [[0], [1]],
                                          ov_unions = [[2], [1]]\<rparr>\<rparr>,
      regions = None\<rparr>"

subsection \<open>The overlap statistics, stated two ways\<close>

text \<open>
  What \<open>_compute_iou_overlap\<close> returns on well-shaped input, written out: row \<open>ci\<close> has
  one entry per other class \<open>cj\<close> of the category, the count over the pixels of
  \<open>f (y[ci]) (pred[cj])\<close>.
\<close>

definition pair_stat :: "(bool \<Rightarrow> bool \<Rightarrow> bool) \<Rightarrow> nat list \<Rightarrow> mask \<Rightarrow> mask \<Rightarrow> rat list list" where
  "pair_stat f classes_idx y pred =
     map (\<lambda>ci. map (\<lambda>cj. count (map2 f (y ! ci) (pred ! cj)))
                  (filter (\<lambda>cj. cj \<noteq> ci) classes_idx))
         classes_idx"

text \<open>
  The statistic as the specification words it: the mask of class \<open>ci\<close> against the OR
  of the masks of all other classes of the category.
\<close>

definition spec_rest_or :: "nat list \<Rightarrow> mask \<Rightarrow> nat \<Rightarrow> bool list" where
  "spec_rest_or classes_idx pred ci =
     any_rows (map ((!) pred) (filter (\<lambda>cj. cj \<noteq> ci) classes_idx))"

definition spec_overlap :: "(bool \<Rightarrow> bool \<Rightarrow> bool) \<Rightarrow> nat list \<Rightarrow> mask \<Rightarrow> mask \<Rightarrow> nat \<Rightarrow> rat" where
  "spec_overlap f classes_idx y pred ci = count (map2 f (y ! ci) (spec_rest_or classes_idx pred ci))"

text \<open>
  Three classes over two pixels: the ground truth of the first class covers both
  pixels, the other two classes are predicted on one pixel each.
\<close>

definition ov_y :: mask where
  "ov_y = [[True, True], [False, False], [False, False]]"

definition ov_pred :: mask where
  "ov_pred = [[False, False], [True, False], [False, True]]"

definition three_idx :: "nat list" where
  "three_idx = [0, 1, 2]"

definition ov_cat :: category where
  "ov_cat =
     \<lparr>cat_intersections = 2, cat_unions = 2,
      confusion = Some \<lparr>ov_intersections = [[1, 1], [0, 0], [0, 0]],
                        ov_unions = [[2, 2], [0, 1], [0, 1]]\<rparr>\<rparr>"

subsection \<open>The frequency-weighted IoU as the specification states it\<close>

text \<open>
  The sum over the classes of the share of the class in the ground-truth pixels,
  \<open>positives[c] / sum(positives)\<close>, times the IoU of the class. The positives are the
  per-class totals of \<open>cls_cnt\<close>.
\<close>

definition spec_freq_weighted_iu :: "page list \<Rightarrow> exn + rat option" where
  "spec_freq_weighted_iu pages =
     (case class_iu pages of
        Inl e \<Rightarrow> Inl e
      | Inr iu \<Rightarrow>
     (case stack_sum (map cls_cnt pages) of
        Inl e \<Rightarrow> Inl e
      | Inr positives \<Rightarrow>
          Inr (dsum (map2 (\<lambda>p v. dmul (fdiv p (sum_list positives)) v) positives iu))))"

text \<open>
  One page of two classes over two pixels on which the network is right everywhere:
  each class holds one pixel of the ground truth and is predicted there with
  confidence 0.9.
\<close>

definition both_nn :: "nat \<Rightarrow> exn + rat list list list" where
  "both_nn x = Inr [[[9 / 10, 1 / 10]], [[1 / 10, 9 / 10]]]"

definition both_batch :: "nat \<times> rat list list list" where
  "both_batch = (0, [[[1, 0]], [[0, 1]]])"

definition both_page :: page where
  "both_page =
     \<lparr>intersections = [1, 1], unions = [1, 1], corrects = [2, 2], cls_cnt = [1, 1], all_n = 2,
      baselines = Some \<lparr>cat_intersections = 2, cat_unions = 2,
                        confusion = Some \<lparr>ov_intersections = [[0], [0]],
                                          ov_unions = [[2], [2]]\<rparr>\<rparr>,
      regions = None\<rparr>"

subsection \<open>The overlap table: accumulated categories and expected values\<close>

text \<open>
  The statistics of a category as \<open>category_stats\<close> computes them from two tensors of
  one shape.
\<close>

definition cat_accumulated :: "nat list \<Rightarrow> category \<Rightarrow> bool" where
  "cat_accumulated idx c \<longleftrightarrow>
     (\<exists>y pred P. length pred = length y \<and> (\<forall>row \<in> set y. length row = P) \<and>
        (\<forall>row \<in> set pred. length row = P) \<and> category_stats idx y pred = Inr c)"

text \<open>
  Entry \<open>(r, q)\<close> of a confusion matrix of a page, its sum over the pages, and the
  smoothed quotient of the two sums, which is the value behind cell \<open>(r, q)\<close>.
\<close>

definition ov_entry ::
  "(confusion \<Rightarrow> rat list list) \<Rightarrow> (page \<Rightarrow> category option) \<Rightarrow> nat \<Rightarrow> nat \<Rightarrow> page \<Rightarrow> rat" where
  "ov_entry key cat r q p =
     (case cat p of
        None \<Rightarrow> 0
      | Some c \<Rightarrow> (case confusion c of None \<Rightarrow> 0 | Some m \<Rightarrow> key m ! r ! q))"

definition ov_total ::
  "(confusion \<Rightarrow> rat list list) \<Rightarrow> (page \<Rightarrow> category option) \<Rightarrow> page list \<Rightarrow> nat \<Rightarrow> nat \<Rightarrow> rat" where
  "ov_total key cat pages r q = sum_list (map (ov_entry key cat r q) pages)"

definition ov_ratio :: "(page \<Rightarrow> category option) \<Rightarrow> page list \<Rightarrow> nat \<Rightarrow> nat \<Rightarrow> rat" where
  "ov_ratio cat pages r q =
     (ov_total ov_intersections cat pages r q + smooth) /
     (ov_total ov_unions cat pages r q + smooth)"

text \<open>
  Three classes over two pixels, predicted exactly: the first two classes cover both
  pixels, the third is empty. The names of the classes, and a stand-in for the
  formatting that prints a mark for every number.
\<close>

definition scen_y :: mask where
  "scen_y = [[True, True], [True, True], [False, False]]"

definition scen_cat :: category where
  "scen_cat =
     \<lparr>cat_intersections = 2, cat_unions = 2,
      confusion = Some \<lparr>ov_intersections = [[2, 0], [2, 0], [0, 0]],
                        ov_unions = [[2, 2], [2, 2], [2, 2]]\<rparr>\<rparr>"

definition scen_page :: page where
  "scen_page =
     \<lparr>intersections = [2, 2, 0], unions = [2, 2, 0], corrects = [2, 2, 2], cls_cnt = [2, 2, 0],
      all_n = 2, baselines = Some scen_cat, regions = None\<rparr>"

definition demo_names :: "nat \<rightharpoonup> string" where
  "demo_names = [0 \<mapsto> ''a'', 1 \<mapsto> ''b'', 2 \<mapsto> ''c'']"

definition mark_fmt :: "rat option \<Rightarrow> string" where
  "mark_fmt v = ''#''"

text \<open>
  A batch whose ground truth has three classes, while the network predicts two: the
  two tensors that line 1464 combines have different numbers of rows.
\<close>

definition mismatched_batch :: "nat \<times> rat list list list" where
  "mismatched_batch = (1, [[[1, 0]], [[0, 1]], [[0, 0]]])"

section \<open>Properties of the repolygonize loop\<close>








section \<open>Order of the pages\<close>

lemma sum_list_map_mset:
  fixes f :: "'a \<Rightarrow> rat"
  assumes "mset xs = mset ys"
  shows "sum_list (map f xs) = sum_list (map f ys)"
proof -
  have "sum_mset (mset (map f xs)) = sum_mset (mset (map f ys))"
    using assms by simp
  then show ?thesis by (simp only: sum_mset_sum_list)
qed

lemma mset_nil_iff: "mset xs = mset ys \<Longrightarrow> xs = [] \<longleftrightarrow> ys = []"
  by (metis mset_zero_iff)

lemma all_first_iff:
  "ts \<noteq> [] \<Longrightarrow>
   list_all (\<lambda>t. f t = f (hd ts)) ts \<longleftrightarrow> (\<forall>t \<in> set ts. \<forall>u \<in> set ts. f t = f u)"
  by (cases ts) (auto simp: list_all_iff)

lemma all_first_mset:
  assumes "mset ts = mset us"
  shows "list_all (\<lambda>t. f t = f (hd ts)) ts \<longleftrightarrow> list_all (\<lambda>t. f t = f (hd us)) us"
proof (cases "ts = []")
  case True
  then show ?thesis using mset_nil_iff [OF assms] by simp
next
  case False
  then have "us \<noteq> []" using mset_nil_iff [OF assms] by simp
  moreover have "set ts = set us" using assms by (rule mset_eq_setD)
  ultimately show ?thesis using False by (simp add: all_first_iff)
qed

lemma hd_same_mset:
  assumes "mset ts = mset us" "ts \<noteq> []" "list_all (\<lambda>t. f t = f (hd ts)) ts"
  shows "f (hd us) = f (hd ts)"
proof -
  have "us \<noteq> []" using mset_nil_iff [OF assms(1)] assms(2) by simp
  then have "hd us \<in> set us" by simp
  then have "hd us \<in> set ts" using mset_eq_setD [OF assms(1)] by simp
  then show ?thesis using assms(3) by (simp add: list_all_iff)
qed

lemma stack_sum_mset:
  assumes "mset ts = mset us"
  shows "stack_sum ts = stack_sum us"
proof (cases "ts \<noteq> [] \<and> list_all (\<lambda>t. length t = length (hd ts)) ts")
  case True
  then have us: "us \<noteq> [] \<and> list_all (\<lambda>t. length t = length (hd us)) us"
    using mset_nil_iff [OF assms] all_first_mset [OF assms, of length] by simp
  have "length (hd us) = length (hd ts)"
    using hd_same_mset [OF assms, of length] True by simp
  then have "sum_vecs ts = sum_vecs us"
    by (simp add: sum_vecs_def sum_list_map_mset [OF assms])
  then show ?thesis using True us by (simp add: stack_sum_def stack_def)
next
  case False
  then have "\<not> (us \<noteq> [] \<and> list_all (\<lambda>t. length t = length (hd us)) us)"
    using mset_nil_iff [OF assms] all_first_mset [OF assms, of length] by simp
  then show ?thesis using False by (auto simp: stack_sum_def stack_def)
qed

lemma stack_sum_scalars_mset:
  assumes "mset xs = mset ys"
  shows "stack_sum_scalars xs = stack_sum_scalars ys"
  using mset_nil_iff [OF assms] sum_list_map_mset [OF assms, of "\<lambda>x. x"]
  by (simp add: stack_sum_scalars_def)

lemma stack_sum_mats_mset:
  assumes "mset ms = mset ns"
  shows "stack_sum_mats ms = stack_sum_mats ns"
proof (cases "ms \<noteq> [] \<and> list_all (\<lambda>m. map length m = map length (hd ms)) ms")
  case True
  then have ns: "ns \<noteq> [] \<and> list_all (\<lambda>m. map length m = map length (hd ns)) ns"
    using mset_nil_iff [OF assms] all_first_mset [OF assms, of "map length"] by simp
  have hd: "map length (hd ns) = map length (hd ms)"
    using hd_same_mset [OF assms, of "map length"] True by simp
  then have len: "length (hd ns) = length (hd ms)"
    by (metis length_map)
  have "\<And>i. i < length (hd ms) \<Longrightarrow> length (hd ns ! i) = length (hd ms ! i)"
    using hd len by (metis nth_map)
  then have "sum_mats ms = sum_mats ns"
    by (simp add: sum_mats_def len sum_list_map_mset [OF assms])
  then show ?thesis using True ns by (simp add: stack_sum_mats_def)
next
  case False
  then have "\<not> (ns \<noteq> [] \<and> list_all (\<lambda>m. map length m = map length (hd ns)) ns)"
    using mset_nil_iff [OF assms] all_first_mset [OF assms, of "map length"] by simp
  then show ?thesis using False by (auto simp: stack_sum_mats_def)
qed

lemma mapE_Inr_iff:
  "mapE f xs = (if \<forall>x \<in> set xs. \<exists>v. f x = Inr v then Inr (map (\<lambda>x. projr (f x)) xs)
                else Inl (projl (f (hd (filter (\<lambda>x. \<not> (\<exists>v. f x = Inr v)) xs)))))"
  by (induction xs) (auto split: sum.splits)

lemma cat_values_eq:
  "cat_values cat key pages =
     (if \<forall>x \<in> set pages. cat x \<noteq> None then Inr (map (\<lambda>x. key (the (cat x))) pages)
      else Inl KeyError)"
  unfolding cat_values_def by (induction pages) (auto split: option.splits)

lemma confusion_values_eq:
  "confusion_values cat key pages =
     (if \<forall>x \<in> set pages. cat x \<noteq> None \<and> confusion (the (cat x)) \<noteq> None
      then Inr (map (\<lambda>x. key (the (confusion (the (cat x))))) pages)
      else Inl KeyError)"
  unfolding confusion_values_def by (induction pages) (auto split: option.splits)

lemma mset_map_cong: "mset ps = mset qs \<Longrightarrow> mset (map f ps) = mset (map f qs)"
  by simp

lemma sum_list_concat_rat: "sum_list (concat ts) = sum_list (map sum_list (ts :: rat list list))"
  by (induction ts) auto

lemma agg_cls_cnt_mset:
  assumes "mset ps = mset qs"
  shows "agg_cls_cnt ps = agg_cls_cnt qs"
proof -
  let ?ts = "map cls_cnt ps" and ?us = "map cls_cnt qs"
  have m: "mset ?ts = mset ?us" using assms by simp
  have s: "sum_list (concat ?ts) = sum_list (concat ?us)"
    using sum_list_map_mset [OF m, of sum_list] by (simp add: sum_list_concat_rat)
  have "(?ts \<noteq> [] \<and> list_all (\<lambda>t. length t = length (hd ?ts)) ?ts) \<longleftrightarrow>
        (?us \<noteq> [] \<and> list_all (\<lambda>t. length t = length (hd ?us)) ?us)"
    using mset_nil_iff [OF m] all_first_mset [OF m, of length] by blast
  then show ?thesis
    using s unfolding agg_cls_cnt_def stack_def by (auto simp del: map_is_Nil_conv)
qed

lemma agg_cat_mset:
  assumes "mset ps = mset qs"
  shows "agg_cat_intersections cat ps = agg_cat_intersections cat qs"
    and "agg_cat_unions cat ps = agg_cat_unions cat qs"
  using mset_eq_setD [OF assms] stack_sum_scalars_mset [OF mset_map_cong [OF assms]]
  by (auto simp: agg_cat_intersections_def agg_cat_unions_def cat_values_eq)

lemma agg_ov_mset:
  assumes "mset ps = mset qs"
  shows "agg_ov_intersections cat ps = agg_ov_intersections cat qs"
    and "agg_ov_unions cat ps = agg_ov_unions cat qs"
  using mset_eq_setD [OF assms] stack_sum_mats_mset [OF mset_map_cong [OF assms]]
  by (auto simp: agg_ov_intersections_def agg_ov_unions_def confusion_values_eq)

text \<open>
  Claim C9. Every total that \<open>segtest\<close> sums over the list of pages depends on the
  pages only as a multiset: two lists with the same pages in any order, in particular
  the pages of \<open>A\<close> followed by those of \<open>B\<close> and the pages of \<open>B\<close> followed by those
  of \<open>A\<close>, give the same value field by field, or raise the same exception.
\<close>

theorem aggregate_order_independent:
  assumes "mset ps = mset qs"
  shows "agg_corrects ps = agg_corrects qs \<and> agg_all_n ps = agg_all_n qs \<and>
         agg_intersections ps = agg_intersections qs \<and> agg_unions ps = agg_unions qs \<and>
         agg_cls_cnt ps = agg_cls_cnt qs \<and>
         agg_cat_intersections cat ps = agg_cat_intersections cat qs \<and>
         agg_cat_unions cat ps = agg_cat_unions cat qs \<and>
         agg_ov_intersections cat ps = agg_ov_intersections cat qs \<and>
         agg_ov_unions cat ps = agg_ov_unions cat qs"
  using stack_sum_mset [OF mset_map_cong [OF assms]]
        stack_sum_scalars_mset [OF mset_map_cong [OF assms]]
        agg_cls_cnt_mset [OF assms] agg_cat_mset [OF assms] agg_ov_mset [OF assms]
  by (simp add: agg_corrects_def agg_all_n_def agg_intersections_def agg_unions_def)

theorem aggregate_order_independent_witness:
  "mset ([demo_page] @ [exact_page, exact_page]) = mset ([exact_page, exact_page] @ [demo_page]) \<and>
   agg_corrects ([demo_page] @ [exact_page, exact_page]) = Inr [5, 6] \<and>
   agg_corrects ([exact_page, exact_page] @ [demo_page]) = Inr [5, 6] \<and>
   agg_ov_unions baselines ([demo_page] @ [exact_page, exact_page]) =
     agg_ov_unions baselines ([exact_page, exact_page] @ [demo_page])"
proof -
  have h: "mset ([demo_page] @ [exact_page, exact_page]) =
           mset ([exact_page, exact_page] @ [demo_page])"
    by simp
  have v: "agg_corrects ([demo_page] @ [exact_page, exact_page]) = Inr [5, 6]"
    by (simp add: agg_corrects_def stack_sum_def stack_def sum_vecs_def demo_page_def
        exact_page_def)
  show ?thesis
    using aggregate_order_independent [OF h, of baselines] h v by simp
qed

section \<open>Per-class metrics\<close>

lemma stack_sum_eq:
  assumes "ts \<noteq> []" "\<forall>t \<in> set ts. length t = C"
  shows "stack_sum ts = Inr (map (\<lambda>i. sum_list (map (\<lambda>v. v ! i) ts)) [0..<C])"
proof -
  have "hd ts \<in> set ts" using assms(1) by simp
  then have "length (hd ts) = C" using assms(2) by blast
  then show ?thesis
    using assms by (simp add: stack_sum_def stack_def sum_vecs_def list_all_iff)
qed

lemma ew_Inr:
  "ew f a b = Inr m \<Longrightarrow> map length a = map length b \<and> m = map2 (map2 f) a b"
  by (auto simp: ew_def split: if_splits)

lemma page_stats_fields:
  assumes "page_stats l r y pred = Inr p"
  shows "map length y = map length pred"
    and "intersections p = map count (map2 (map2 (\<and>)) y pred)"
    and "unions p = map count (map2 (map2 (\<or>)) y pred)"
    and "corrects p = map count (map2 (map2 (=)) y pred)"
    and "cls_cnt p = map count y"
    and "all_n p = of_nat (size1 y)"
  using assms unfolding page_stats_def
  by (auto split: sum.splits dest!: ew_Inr)

lemma count_nonneg: "0 \<le> count bs"
  by (simp add: count_def)

lemma count_le_length: "count bs \<le> of_nat (length bs)"
  by (simp add: count_def)

lemma count_and_le_or:
  "length a = length b \<Longrightarrow> count (map2 (\<and>) a b) \<le> count (map2 (\<or>) a b)"
proof (induction a arbitrary: b)
  case Nil
  then show ?case by (simp add: count_def)
next
  case (Cons x a)
  then obtain z b' where "b = z # b'" by (cases b) auto
  then show ?case using Cons.IH [of b'] Cons.prems by (auto simp: count_def)
qed

lemma accumulatedD:
  assumes "accumulated l r C p"
  shows "length (intersections p) = C" "length (unions p) = C" "length (corrects p) = C"
    "length (cls_cnt p) = C" "0 < all_n p" "0 < C"
    "\<And>c. c < C \<Longrightarrow> 0 \<le> intersections p ! c \<and> intersections p ! c \<le> unions p ! c"
    "\<And>c. c < C \<Longrightarrow> 0 \<le> corrects p ! c \<and> corrects p ! c \<le> all_n p"
    "\<And>c. c < C \<Longrightarrow> 0 \<le> cls_cnt p ! c"
proof -
  obtain y pred where y: "length y = C" "0 < size1 y" "\<forall>row \<in> set y. length row = size1 y"
    and p: "page_stats l r y pred = Inr p"
    using assms unfolding accumulated_def by blast
  note f = page_stats_fields [OF p]
  have len: "length pred = C" using f(1) y(1) by (metis length_map)
  show "length (intersections p) = C" "length (unions p) = C" "length (corrects p) = C"
    "length (cls_cnt p) = C"
    using f y(1) len by simp_all
  show "0 < all_n p" using f(6) y(2) by simp
  show "0 < C" using y(1) y(2) by (cases y) (auto simp: size1_def)
  {
    fix c assume c: "c < C"
    have lc: "length (y ! c) = length (pred ! c)"
      using f(1) c y(1) len by (metis nth_map)
    have ly: "length (y ! c) = size1 y" using y(3) c y(1) by simp
    show "0 \<le> intersections p ! c \<and> intersections p ! c \<le> unions p ! c"
      using c y(1) len f(2) f(3) count_and_le_or [OF lc] by (simp add: count_nonneg)
    have "corrects p ! c = count (map2 (=) (y ! c) (pred ! c))"
      using c y(1) len f(4) by simp
    moreover have "count (map2 (=) (y ! c) (pred ! c)) \<le> of_nat (length (map2 (=) (y ! c) (pred ! c)))"
      by (rule count_le_length)
    ultimately show "0 \<le> corrects p ! c \<and> corrects p ! c \<le> all_n p"
      using lc ly f(6) by (simp add: count_nonneg)
    show "0 \<le> cls_cnt p ! c" using c y(1) f(5) by (simp add: count_nonneg)
  }
qed

lemma smooth_pos: "0 < smooth"
  by (simp add: smooth_def)

lemma page_total_nonneg:
  "(\<And>p. p \<in> set pages \<Longrightarrow> 0 \<le> key p ! c) \<Longrightarrow> 0 \<le> page_total key pages c"
  unfolding page_total_def by (induction pages) auto

lemma agg_eq:
  assumes "pages \<noteq> []" "\<forall>p \<in> set pages. accumulated l r C p"
  shows "agg_intersections pages = Inr (map (page_total intersections pages) [0..<C])"
    and "agg_unions pages = Inr (map (page_total unions pages) [0..<C])"
    and "agg_corrects pages = Inr (map (page_total corrects pages) [0..<C])"
proof -
  have "stack_sum (map intersections pages) = Inr (map (\<lambda>i. sum_list (map (\<lambda>v. v ! i) (map intersections pages))) [0..<C])"
    using assms accumulatedD(1) by (intro stack_sum_eq) auto
  then show "agg_intersections pages = Inr (map (page_total intersections pages) [0..<C])"
    by (simp add: agg_intersections_def page_total_def comp_def)
  have "stack_sum (map unions pages) = Inr (map (\<lambda>i. sum_list (map (\<lambda>v. v ! i) (map unions pages))) [0..<C])"
    using assms accumulatedD(2) by (intro stack_sum_eq) auto
  then show "agg_unions pages = Inr (map (page_total unions pages) [0..<C])"
    by (simp add: agg_unions_def page_total_def comp_def)
  have "stack_sum (map corrects pages) = Inr (map (\<lambda>i. sum_list (map (\<lambda>v. v ! i) (map corrects pages))) [0..<C])"
    using assms accumulatedD(3) by (intro stack_sum_eq) auto
  then show "agg_corrects pages = Inr (map (page_total corrects pages) [0..<C])"
    by (simp add: agg_corrects_def page_total_def comp_def)
qed

lemma map2_map_map: "map2 f (map g xs) (map h xs) = map (\<lambda>x. f (g x) (h x)) xs"
  by (induction xs) auto

lemma class_iu_eq:
  assumes "pages \<noteq> []" "\<forall>p \<in> set pages. accumulated l r C p"
  shows "class_iu pages =
     Inr (map (\<lambda>c. Some ((page_total intersections pages c + smooth) / (page_total unions pages c + smooth)))
              [0..<C])"
proof -
  have nz: "page_total unions pages c + smooth \<noteq> 0" if "c < C" for c
  proof -
    have "0 \<le> page_total unions pages c"
    proof (rule page_total_nonneg)
      fix p assume "p \<in> set pages"
      then have "accumulated l r C p" using assms(2) by blast
      from accumulatedD(7) [OF this that] show "0 \<le> unions p ! c" by simp
    qed
    then show ?thesis using smooth_pos by simp
  qed
  show ?thesis
    using nz by (simp add: class_iu_def agg_eq [OF assms] map2_map_map fdiv_def)
qed

text \<open>
  Claim C5. Over a non-empty list of accumulated pages with \<open>C\<close> classes, \<open>class_iu\<close>
  raises nothing and is a list of \<open>C\<close> defined values (no nan): entry \<open>c\<close> is the total
  intersection of class \<open>c\<close> plus \<open>smooth\<close>, divided by its total union plus \<open>smooth\<close>,
  where \<open>smooth\<close> is the machine epsilon of single precision. For a class whose totals
  are both zero the value is 1.
\<close>

theorem class_iu_smoothed:
  assumes "pages \<noteq> []" "\<forall>p \<in> set pages. accumulated l r C p"
  shows "\<exists>iu. class_iu pages = Inr iu \<and> length iu = C \<and>
     (\<forall>c < C. iu ! c = Some ((page_total intersections pages c + smooth) /
                              (page_total unions pages c + smooth)) \<and>
        (page_total intersections pages c = 0 \<and> page_total unions pages c = 0 \<longrightarrow> iu ! c = Some 1))"
  using smooth_pos by (simp add: class_iu_eq [OF assms])

lemma demo_page_eq: "page_stats [0, 1] [] demo_y demo_pred = Inr demo_page"
  by (simp add: page_stats_def ew_def count_def category_stats_def index_rows_def any_rows_def
      size1_def compute_iou_overlap_def overlap_row_def stack_def demo_y_def demo_pred_def
      demo_page_def)

lemma exact_page_eq: "page_stats [0, 1] [] exact_y exact_y = Inr exact_page"
  by (simp add: page_stats_def ew_def count_def category_stats_def index_rows_def any_rows_def
      size1_def compute_iou_overlap_def overlap_row_def stack_def exact_y_def exact_page_def)

lemma accumulated_demo: "accumulated [0, 1] [] 2 demo_page"
proof -
  have "length demo_y = 2 \<and> 0 < size1 demo_y \<and> (\<forall>row \<in> set demo_y. length row = size1 demo_y)"
    by (simp add: demo_y_def size1_def)
  then show ?thesis
    unfolding accumulated_def using demo_page_eq by blast
qed

lemma accumulated_exact: "accumulated [0, 1] [] 2 exact_page"
proof -
  have "length exact_y = 2 \<and> 0 < size1 exact_y \<and> (\<forall>row \<in> set exact_y. length row = size1 exact_y)"
    by (simp add: exact_y_def size1_def)
  then show ?thesis
    unfolding accumulated_def using exact_page_eq by blast
qed

theorem class_iu_smoothed_witness:
  "[demo_page, exact_page] \<noteq> [] \<and>
   accumulated [0, 1] [] 2 demo_page \<and> accumulated [0, 1] [] 2 exact_page \<and>
   class_iu [demo_page, exact_page] = Inr [Some ((2 + smooth) / (3 + smooth)), Some 1]"
proof -
  have h1: "[demo_page, exact_page] \<noteq> []" by simp
  have h2: "\<forall>p \<in> set [demo_page, exact_page]. accumulated [0, 1] [] 2 p"
    using accumulated_demo accumulated_exact by simp
  obtain iu where iu: "class_iu [demo_page, exact_page] = Inr iu" "length iu = 2"
    and v: "\<forall>c < 2. iu ! c = Some ((page_total intersections [demo_page, exact_page] c + smooth) /
                                     (page_total unions [demo_page, exact_page] c + smooth))"
    using class_iu_smoothed [OF h1 h2] by blast
  have "iu ! 0 = Some ((2 + smooth) / (3 + smooth))"
    using v by (simp add: page_total_def demo_page_def exact_page_def)
  moreover have "iu ! 1 = Some 1"
    using v smooth_pos by (simp add: page_total_def demo_page_def exact_page_def)
  moreover have "iu = [iu ! 0, iu ! 1]"
    using iu(2) by (cases iu; cases "tl iu") auto
  ultimately have "iu = [Some ((2 + smooth) / (3 + smooth)), Some 1]" by simp
  then show ?thesis using h1 h2 iu(1) by simp
qed

lemma dmean_Some:
  "0 < C \<Longrightarrow> dmean (map (\<lambda>c. Some (f c)) [0..<C]) = Some (sum_list (map f [0..<C]) / of_nat C)"
  by (simp add: dmean_def dsum_def list_all_iff fdiv_def comp_def)

text \<open>
  Claim C6. Over a non-empty list of accumulated pages with \<open>C\<close> classes, the total
  pixel count is positive, the pixel accuracy of class \<open>c\<close> is its total count of
  agreeing pixels divided by the total pixel count, and the mean accuracy and the
  mean IoU are the sums of the per-class values divided by the number of classes.
\<close>

theorem accuracy_and_means:
  assumes "pages \<noteq> []" "\<forall>p \<in> set pages. accumulated l r C p"
  shows "\<exists>n. agg_all_n pages = Inr n \<and> 0 < n \<and> n = sum_list (map all_n pages) \<and>
     class_pixel_accuracy pages = Inr (map (\<lambda>c. Some (page_total corrects pages c / n)) [0..<C]) \<and>
     mean_accuracy pages =
       Inr (Some (sum_list (map (\<lambda>c. page_total corrects pages c / n) [0..<C]) / of_nat C)) \<and>
     mean_iu pages =
       Inr (Some (sum_list (map (\<lambda>c. (page_total intersections pages c + smooth) /
                                     (page_total unions pages c + smooth)) [0..<C]) / of_nat C))"
proof -
  let ?n = "sum_list (map all_n pages)"
  obtain p ps where pages: "pages = p # ps" using assms(1) by (cases pages) auto
  have pos: "\<And>q. q \<in> set pages \<Longrightarrow> 0 < all_n q"
    using assms(2) accumulatedD(5) by blast
  have "0 \<le> sum_list (map all_n ps)"
    using pos pages by (intro sum_list_nonneg) (auto simp: less_imp_le)
  moreover have "0 < all_n p" using pos pages by simp
  ultimately have n: "0 < ?n" using pages by simp
  have C: "0 < C" using assms accumulatedD(6) pages by (metis list.set_intros(1))
  have alln: "agg_all_n pages = Inr ?n"
    using assms(1) by (simp add: agg_all_n_def stack_sum_scalars_def)
  have cpa: "class_pixel_accuracy pages = Inr (map (\<lambda>c. Some (page_total corrects pages c / ?n)) [0..<C])"
    using n by (simp add: class_pixel_accuracy_def agg_eq [OF assms] alln fdiv_def)
  show ?thesis
    using n alln cpa C
    by (simp add: mean_accuracy_def mean_iu_def class_iu_eq [OF assms] dmean_Some)
qed

theorem accuracy_and_means_witness:
  "[demo_page, exact_page] \<noteq> [] \<and>
   accumulated [0, 1] [] 2 demo_page \<and> accumulated [0, 1] [] 2 exact_page \<and>
   agg_all_n [demo_page, exact_page] = Inr 5 \<and>
   class_pixel_accuracy [demo_page, exact_page] = Inr [Some (4 / 5), Some 1] \<and>
   mean_accuracy [demo_page, exact_page] = Inr (Some (9 / 10))"
proof -
  have h1: "[demo_page, exact_page] \<noteq> []" by simp
  have h2: "\<forall>p \<in> set [demo_page, exact_page]. accumulated [0, 1] [] 2 p"
    using accumulated_demo accumulated_exact by simp
  have t: "page_total corrects [demo_page, exact_page] 0 = 4"
    "page_total corrects [demo_page, exact_page] (Suc 0) = 5"
    by (simp_all add: page_total_def demo_page_def exact_page_def)
  have u: "[0..<2] = [0, 1]" by (simp add: upt_rec)
  obtain n where n: "agg_all_n [demo_page, exact_page] = Inr n"
      "n = sum_list (map all_n [demo_page, exact_page])"
      "class_pixel_accuracy [demo_page, exact_page] =
         Inr (map (\<lambda>c. Some (page_total corrects [demo_page, exact_page] c / n)) [0..<2])"
      "mean_accuracy [demo_page, exact_page] =
         Inr (Some (sum_list (map (\<lambda>c. page_total corrects [demo_page, exact_page] c / n) [0..<2]) /
                    of_nat 2))"
    using accuracy_and_means [OF h1 h2] by blast
  have n5: "n = 5" using n(2) by (simp add: demo_page_def exact_page_def)
  show ?thesis
    using h1 h2 n(1) n(3) n(4) by (simp add: n5 t u)
qed

section \<open>The loop over the batches\<close>







lemma try_body_demo:
  "try_body demo_nn (1 / 2) demo_idx [] failing_batch = Inl FileNotFoundError"
  "try_body demo_nn (1 / 2) demo_idx [] loading_batch = Inr loop_page"
  "try_body demo_nn (1 / 2) demo_idx [] mismatched_batch = Inl RuntimeError"
  by code_simp+



section \<open>Binarization and resizing\<close>

lemma interpolate_shape:
  assumes "interpolate (h, w) t = Inr t'"
  shows "length t' = length t" "0 < h" "0 < w"
    "\<And>g. g \<in> set t' \<Longrightarrow> length g = h"
    "\<And>g row. g \<in> set t' \<Longrightarrow> row \<in> set g \<Longrightarrow> length row = w"
  using assms by (auto simp: interpolate_def split: if_splits)

lemma length_concat_rect:
  "\<forall>row \<in> set g. length row = w \<Longrightarrow> length (concat g) = length g * w"
  by (induction g) auto

lemma view_rows_to_bool:
  "view_rows (to_bool t) = map (\<lambda>g. map (\<lambda>v. v \<noteq> 0) (concat g)) t"
  by (simp add: view_rows_def to_bool_def map_concat comp_def)

lemma view_rows_binarize:
  "view_rows (binarize threshold t) = map (\<lambda>g. map (\<lambda>v. threshold < v) (concat g)) t"
  by (simp add: view_rows_def binarize_def map_concat comp_def)

lemma squeeze_view_many:
  "length t \<noteq> 1 \<Longrightarrow> squeeze_view t = Inr (view_rows t)"
  by (simp add: squeeze_view_def)

lemma binarize_nth:
  "c < length pred \<Longrightarrow> i < length (pred ! c) \<Longrightarrow> j < length (pred ! c ! i) \<Longrightarrow>
   binarize threshold pred ! c ! i ! j \<longleftrightarrow> threshold < pred ! c ! i ! j"
  by (simp add: binarize_def)

text \<open>
  Claim C7. Whenever the body of the \<open>try\<close> yields a page, the ground truth has been
  resized to the height and width of the prediction, so that its rows have as many
  pixels as the prediction has, before the two are compared by \<open>page_stats\<close>; and
  the prediction has been binarized entry by entry with a strict comparison: an entry
  is present exactly when its confidence is greater than the threshold, and a
  confidence equal to the threshold is absent. This holds for every threshold.
\<close>

theorem threshold_strict_after_resize:
  assumes "try_body nn threshold l r (x, y) = Inr p"
  shows "\<exists>pred y' pred'.
     nn x = Inr pred \<and>
     interpolate (size_h pred, size_w pred) y = Inr y' \<and>
     length y' = length y \<and>
     (\<forall>g \<in> set y'. length g = size_h pred \<and> (\<forall>row \<in> set g. length row = size_w pred)) \<and>
     (\<forall>row \<in> set (view_rows (to_bool y')). length row = size_h pred * size_w pred) \<and>
     squeeze_view (binarize threshold pred) = Inr pred' \<and>
     page_stats l r (view_rows (to_bool y')) pred' = Inr p \<and>
     (length pred \<noteq> 1 \<longrightarrow> pred' = map (\<lambda>g. map (\<lambda>v. threshold < v) (concat g)) pred) \<and>
     (\<forall>c < length pred. \<forall>i < length (pred ! c). \<forall>j < length (pred ! c ! i).
        (binarize threshold pred ! c ! i ! j \<longleftrightarrow> threshold < pred ! c ! i ! j) \<and>
        (pred ! c ! i ! j = threshold \<longrightarrow> \<not> binarize threshold pred ! c ! i ! j))"
proof -
  obtain pred where pred: "nn x = Inr pred"
    using assms by (auto simp: try_body_def split: sum.splits)
  obtain y' where y': "interpolate (size_h pred, size_w pred) y = Inr y'"
    using assms pred by (auto simp: try_body_def split: sum.splits)
  obtain pred' where pred': "squeeze_view (binarize threshold pred) = Inr pred'"
    using assms pred y' by (auto simp: try_body_def split: sum.splits)
  have p: "page_stats l r (view_rows (to_bool y')) pred' = Inr p"
    using assms pred y' pred' by (simp add: try_body_def)
  note sh = interpolate_shape [OF y']
  have rows: "\<forall>row \<in> set (view_rows (to_bool y')). length row = size_h pred * size_w pred"
  proof
    fix row assume "row \<in> set (view_rows (to_bool y'))"
    then obtain g where g: "g \<in> set y'" "row = map (\<lambda>v. v \<noteq> 0) (concat g)"
      by (auto simp: view_rows_to_bool)
    have "length (concat g) = length g * size_w pred"
      using sh(5) [OF g(1)] by (intro length_concat_rect) simp
    then show "length row = size_h pred * size_w pred"
      using g sh(4) [OF g(1)] by simp
  qed
  have many: "length pred \<noteq> 1 \<longrightarrow> pred' = map (\<lambda>g. map (\<lambda>v. threshold < v) (concat g)) pred"
  proof
    assume "length pred \<noteq> 1"
    then have "length (binarize threshold pred) \<noteq> 1" by (simp add: binarize_def)
    from squeeze_view_many [OF this] pred' show "pred' = map (\<lambda>g. map (\<lambda>v. threshold < v) (concat g)) pred"
      by (simp add: view_rows_binarize)
  qed
  show ?thesis
    using pred y' pred' p sh(1) sh(4) sh(5) rows many by (auto simp: binarize_nth)
qed

theorem threshold_strict_after_resize_witness:
  "try_body demo_nn (1 / 2) demo_idx [] (1, snd loading_batch) = Inr loop_page \<and>
   \<not> binarize (1 / 2) [[[1 / 2, 3 / 4]], [[1 / 4, 1]]] ! 0 ! 0 ! 0 \<and>
   binarize (1 / 2) [[[1 / 2, 3 / 4]], [[1 / 4, 1]]] ! 0 ! 0 ! 1"
proof -
  have h: "try_body demo_nn (1 / 2) demo_idx [] (1, snd loading_batch) = Inr loop_page"
    using try_body_demo(2) by (simp add: loading_batch_def)
  obtain pred where pred: "demo_nn 1 = Inr pred"
    and b: "\<forall>c < length pred. \<forall>i < length (pred ! c). \<forall>j < length (pred ! c ! i).
        (binarize (1 / 2) pred ! c ! i ! j \<longleftrightarrow> 1 / 2 < pred ! c ! i ! j) \<and>
        (pred ! c ! i ! j = 1 / 2 \<longrightarrow> \<not> binarize (1 / 2) pred ! c ! i ! j)"
    using threshold_strict_after_resize [OF h] by blast
  have p: "pred = [[[1 / 2, 3 / 4]], [[1 / 4, 1]]]"
    using pred by (simp add: demo_nn_def)
  have "\<not> binarize (1 / 2) pred ! 0 ! 0 ! 0" "binarize (1 / 2) pred ! 0 ! 0 ! 1"
    using b by (simp_all add: p)
  then show ?thesis using h by (simp add: p)
qed

section \<open>The overlap statistics of a page\<close>

lemma mapE_all_Inr:
  "(\<And>x. x \<in> set xs \<Longrightarrow> f x = Inr (g x)) \<Longrightarrow> mapE f xs = Inr (map g xs)"
  by (induction xs) auto

lemma length_filter_neq:
  "distinct xs \<Longrightarrow> c \<in> set xs \<Longrightarrow> length (filter (\<lambda>x. x \<noteq> c) xs) = length xs - 1"
proof (induction xs)
  case Nil
  then show ?case by simp
next
  case (Cons x xs)
  show ?case
  proof (cases "x = c")
    case True
    then have "c \<notin> set xs" using Cons.prems by simp
    then have "filter (\<lambda>x. x \<noteq> c) xs = xs" by (induction xs) auto
    then show ?thesis using True by simp
  next
    case False
    then have "c \<in> set xs" using Cons.prems by simp
    moreover from this have "0 < length xs" by (cases xs) auto
    ultimately show ?thesis using False Cons by simp
  qed
qed

lemma map2_replicate:
  "length rows = n \<Longrightarrow> map2 g (replicate n r) rows = map (g r) rows"
  by (induction rows arbitrary: n) auto

lemma overlap_row_eq:
  assumes "distinct classes_idx" "ci \<in> set classes_idx"
    and "\<forall>i \<in> set classes_idx. i < length y" "length pred = length y"
    and "\<forall>row \<in> set y. length row = P" "\<forall>row \<in> set pred. length row = P"
  shows "overlap_row f classes_idx y pred ci =
     Inr (map (\<lambda>cj. count (map2 f (y ! ci) (pred ! cj))) (filter (\<lambda>cj. cj \<noteq> ci) classes_idx))"
proof -
  let ?others = "filter (\<lambda>cj. cj \<noteq> ci) classes_idx"
  have ci: "ci < length y" using assms(2,3) by blast
  have idx: "index_rows pred ?others = Inr (map ((!) pred) ?others)"
    using assms(3,4) by (simp add: index_rows_def list_all_iff)
  have n: "length ?others = length classes_idx - 1"
    using assms(1,2) by (rule length_filter_neq)
  have lens: "map length (map ((!) pred) ?others) = replicate (length classes_idx - 1) P"
  proof -
    have "map length (map ((!) pred) ?others) = map (\<lambda>_. P) ?others"
      using assms(3,4,6) by simp
    then show ?thesis by (simp only: map_replicate_const n)
  qed
  have ly: "length (y ! ci) = P" using assms(5) ci by simp
  have "ew f (replicate (length classes_idx - 1) (y ! ci)) (map ((!) pred) ?others) =
        Inr (map (map2 f (y ! ci)) (map ((!) pred) ?others))"
    using lens ly n by (simp add: ew_def map2_replicate)
  then show ?thesis using ci idx by (simp add: overlap_row_def comp_def)
qed

lemma compute_iou_overlap_eq:
  assumes "distinct classes_idx" "2 \<le> length classes_idx"
    and "\<forall>i \<in> set classes_idx. i < length y" "length pred = length y"
    and "\<forall>row \<in> set y. length row = P" "\<forall>row \<in> set pred. length row = P"
  shows "compute_iou_overlap classes_idx y pred =
     Inr \<lparr>ov_intersections = pair_stat (\<and>) classes_idx y pred,
          ov_unions = pair_stat (\<or>) classes_idx y pred\<rparr>"
proof -
  have rows: "mapE (overlap_row f classes_idx y pred) classes_idx = Inr (pair_stat f classes_idx y pred)" for f
    unfolding pair_stat_def
    using overlap_row_eq [OF assms(1) _ assms(3-6)] by (intro mapE_all_Inr) simp
  have ne: "classes_idx \<noteq> []" using assms(2) by auto
  have st: "stack (pair_stat f classes_idx y pred) = Inr (pair_stat f classes_idx y pred)" for f
  proof -
    have "hd classes_idx \<in> set classes_idx" using ne by simp
    then have "length (hd (pair_stat f classes_idx y pred)) = length classes_idx - 1"
      using ne by (simp add: pair_stat_def hd_map length_filter_neq [OF assms(1)])
    then show ?thesis
      using ne by (simp add: stack_def list_all_iff) (simp add: pair_stat_def length_filter_neq [OF assms(1)])
  qed
  show ?thesis by (simp add: compute_iou_overlap_def rows st)
qed

lemma pair_stat_shape:
  assumes "distinct classes_idx"
  shows "length (pair_stat f classes_idx y pred) = length classes_idx"
    and "\<forall>row \<in> set (pair_stat f classes_idx y pred). length row = length classes_idx - 1"
  using assms by (auto simp: pair_stat_def length_filter_neq)

lemma category_stats_confusion:
  assumes "category_stats idx y pred = Inr c" "distinct idx" "2 \<le> length idx"
    and "length pred = length y"
    and "\<forall>row \<in> set y. length row = P" "\<forall>row \<in> set pred. length row = P"
  shows "confusion c = Some \<lparr>ov_intersections = pair_stat (\<and>) idx y pred,
                              ov_unions = pair_stat (\<or>) idx y pred\<rparr>"
proof -
  have "\<forall>i \<in> set idx. i < length y"
    using assms(1) by (auto simp: category_stats_def index_rows_def list_all_iff split: sum.splits if_splits)
  from compute_iou_overlap_eq [OF assms(2,3) this assms(4-6)] assms(1,3)
  show ?thesis
    by (auto simp: category_stats_def split: sum.splits if_splits)
qed

text \<open>
  Claim C2, as amended. For a category of at least two distinct classes and a page
  whose tensors have the same shape, the statistics of the category hold two
  matrices with one row per class and one column per other class. Row \<open>r\<close>, column
  \<open>q\<close> of the intersections is the number of pixels where the ground truth of class
  \<open>idx[r]\<close> and the prediction of the \<open>q\<close>-th other class both hold, and of the unions
  the number of pixels where one of the two holds: each other class is compared on
  its own, and no OR of the other classes is formed.
\<close>

theorem overlap_is_pairwise:
  assumes "category_stats idx y pred = Inr c" "distinct idx" "2 \<le> length idx"
    and "length pred = length y"
    and "\<forall>row \<in> set y. length row = P" "\<forall>row \<in> set pred. length row = P"
  shows "\<exists>m. confusion c = Some m \<and>
     length (ov_intersections m) = length idx \<and> length (ov_unions m) = length idx \<and>
     (\<forall>r < length idx.
        length (ov_intersections m ! r) = length idx - 1 \<and>
        length (ov_unions m ! r) = length idx - 1 \<and>
        (\<forall>q < length idx - 1.
           ov_intersections m ! r ! q =
             count (map2 (\<and>) (y ! (idx ! r)) (pred ! (filter (\<lambda>cj. cj \<noteq> idx ! r) idx ! q))) \<and>
           ov_unions m ! r ! q =
             count (map2 (\<or>) (y ! (idx ! r)) (pred ! (filter (\<lambda>cj. cj \<noteq> idx ! r) idx ! q)))))"
  using category_stats_confusion [OF assms] assms(2)
  by (simp add: pair_stat_def length_filter_neq)

theorem overlap_is_pairwise_witness:
  "category_stats three_idx ov_y ov_pred = Inr ov_cat \<and> distinct three_idx \<and>
   2 \<le> length three_idx \<and> length ov_pred = length ov_y \<and>
   map length ov_y = [2, 2, 2] \<and> map length ov_pred = [2, 2, 2] \<and>
   (\<exists>m. confusion ov_cat = Some m \<and> ov_intersections m ! 0 ! 1 = 1 \<and> ov_unions m ! 0 ! 1 = 2)"
proof -
  have h1: "category_stats three_idx ov_y ov_pred = Inr ov_cat" by code_simp
  have h2: "distinct three_idx" by (simp add: three_idx_def)
  have h3: "2 \<le> length three_idx" by (simp add: three_idx_def)
  have h4: "length ov_pred = length ov_y" by (simp add: ov_y_def ov_pred_def)
  have h5: "\<forall>row \<in> set ov_y. length row = 2" by (simp add: ov_y_def)
  have h6: "\<forall>row \<in> set ov_pred. length row = 2" by (simp add: ov_pred_def)
  obtain m where m: "confusion ov_cat = Some m"
    and e: "\<forall>r < length three_idx. \<forall>q < length three_idx - 1.
           ov_intersections m ! r ! q =
             count (map2 (\<and>) (ov_y ! (three_idx ! r))
                      (ov_pred ! (filter (\<lambda>cj. cj \<noteq> three_idx ! r) three_idx ! q))) \<and>
           ov_unions m ! r ! q =
             count (map2 (\<or>) (ov_y ! (three_idx ! r))
                      (ov_pred ! (filter (\<lambda>cj. cj \<noteq> three_idx ! r) three_idx ! q)))"
    using overlap_is_pairwise [OF h1 h2 h3 h4 h5 h6] by blast
  have "ov_intersections m ! 0 ! 1 = 1 \<and> ov_unions m ! 0 ! 1 = 2"
    using e by (simp add: three_idx_def ov_y_def ov_pred_def count_def)
  moreover have "map length ov_y = [2, 2, 2]" "map length ov_pred = [2, 2, 2]"
    by (simp_all add: ov_y_def ov_pred_def)
  ultimately show ?thesis using h1 h2 h3 h4 m by blast
qed

text \<open>
  Claim C2 as the specification states it fails: on this page the first class
  overlaps the OR of the other two classes on two pixels, and both entries of its row
  are 1.
\<close>

theorem overlap_or_of_rest_counterexample:
  "compute_iou_overlap three_idx ov_y ov_pred =
     Inr \<lparr>ov_intersections = [[1, 1], [0, 0], [0, 0]], ov_unions = [[2, 2], [0, 1], [0, 1]]\<rparr> \<and>
   spec_overlap (\<and>) three_idx ov_y ov_pred 0 = 2 \<and>
   spec_overlap (\<or>) three_idx ov_y ov_pred 1 = 1"
  by code_simp

section \<open>The frequency-weighted IoU\<close>

text \<open>
  With \<open>cls_cnt\<close> summed over pages and classes alike, the quotient
  \<open>cls_cnt / cls_cnt.sum()\<close> is 1 whenever a ground-truth pixel exists, and \<open>freq_iu\<close>
  is the plain sum of the class IoUs.
\<close>

lemma agg_cls_cnt_eq:
  assumes "pages \<noteq> []" "\<forall>p \<in> set pages. accumulated l r C p"
  shows "agg_cls_cnt pages = Inr (sum_list (map (\<lambda>p. sum_list (cls_cnt p)) pages))"
proof -
  have "hd pages \<in> set pages" using assms(1) by simp
  then have "length (cls_cnt (hd pages)) = C" using assms(2) accumulatedD(4) by blast
  then have "stack (map cls_cnt pages) = Inr (map cls_cnt pages)"
    using assms accumulatedD(4) by (auto simp: stack_def list_all_iff hd_map)
  then show ?thesis
    by (simp add: agg_cls_cnt_def sum_list_concat_rat comp_def)
qed

lemma dsum_Some: "dsum (map (\<lambda>c. Some (f c)) xs) = Some (sum_list (map f xs))"
  by (simp add: dsum_def list_all_iff comp_def)

lemma freq_iu_is_sum:
  assumes "pages \<noteq> []" "\<forall>p \<in> set pages. accumulated l r C p"
    and "sum_list (map (\<lambda>p. sum_list (cls_cnt p)) pages) \<noteq> 0"
  shows "freq_iu pages =
     Inr (Some (sum_list (map (\<lambda>c. (page_total intersections pages c + smooth) /
                                   (page_total unions pages c + smooth)) [0..<C])))"
  using assms(3)
  by (simp add: freq_iu_def class_iu_eq [OF assms(1,2)] agg_cls_cnt_eq [OF assms(1,2)]
      dsum_Some fdiv_def dmul_def)

text \<open>
  Claim C1 at a failing input. On two accumulated pages the value that line 1517
  computes is the sum of the two class IoUs, while the frequency-weighted IoU of the
  specification weights the second class, which has no ground-truth pixel, by zero.
\<close>

theorem freq_iu_not_weighted:
  "freq_iu [demo_page, exact_page] = Inr (Some (41943042 / 25165825)) \<and>
   spec_freq_weighted_iu [demo_page, exact_page] = Inr (Some (16777217 / 25165825))"
  by code_simp

text \<open>
  Claim C3 at a failing input. A run over one page of two classes, both predicted
  exactly: every class IoU and their mean are 1, and the value printed as the
  frequency-weighted IoU is 2.
\<close>

theorem freq_iu_above_one:
  "segtest_loop both_nn (1 / 2) demo_idx [] [both_batch] ([], 1) = Inr ([both_page], 1) \<and>
   class_iu [both_page] = Inr [Some 1, Some 1] \<and>
   mean_iu [both_page] = Inr (Some 1) \<and>
   freq_iu [both_page] = Inr (Some 2)"
  by code_simp

section \<open>The overlap table\<close>

lemma stack_sum_mats_eq:
  assumes "ms \<noteq> []" "\<forall>m \<in> set ms. map length m = replicate k n"
  shows "stack_sum_mats ms =
     Inr (map (\<lambda>i. map (\<lambda>j. sum_list (map (\<lambda>m. m ! i ! j) ms)) [0..<n]) [0..<k])"
proof -
  have hd: "map length (hd ms) = replicate k n" using assms by simp
  then have k: "length (hd ms) = k" by (metis length_map length_replicate)
  have n: "length (hd ms ! i) = n" if "i < k" for i
    using hd k that by (metis nth_map nth_replicate)
  have "sum_mats ms = map (\<lambda>i. map (\<lambda>j. sum_list (map (\<lambda>m. m ! i ! j) ms)) [0..<n]) [0..<k]"
    unfolding sum_mats_def k using n by (intro map_cong) auto
  then show ?thesis
    using assms hd by (simp add: stack_sum_mats_def list_all_iff)
qed

lemma pair_stat_lengths:
  "distinct idx \<Longrightarrow> map length (pair_stat f idx y pred) = replicate (length idx) (length idx - 1)"
  by (simp add: pair_stat_def comp_def length_filter_neq map_replicate_const [symmetric])

lemma pair_stat_nonneg:
  "r < length idx \<Longrightarrow> q < length (pair_stat f idx y pred ! r) \<Longrightarrow>
   0 \<le> pair_stat f idx y pred ! r ! q"
  by (simp add: pair_stat_def count_nonneg)

lemma update_fresh:
  "k \<notin> fst ` set al \<Longrightarrow> AList.update k v al = al @ [(k, v)]"
  by (induction al) auto

lemma fold_dict_set_fresh:
  "distinct (map fst items) \<Longrightarrow> fst ` set items \<inter> fst ` set d = {} \<Longrightarrow>
   fold dict_set items d = d @ items"
proof (induction items arbitrary: d)
  case Nil
  show ?case by simp
next
  case (Cons kv items)
  have fresh: "fst kv \<notin> fst ` set d" using Cons.prems(2) by auto
  have step: "dict_set kv d = d @ [kv]"
    using update_fresh [OF fresh, of "snd kv"] by (simp add: dict_set_def)
  have "fold dict_set items (d @ [kv]) = (d @ [kv]) @ items"
    using Cons.prems by (intro Cons.IH) auto
  then show ?case by (simp add: step)
qed

lemma in_set_enumerate0:
  "(i, x) \<in> set (enumerate 0 xs) \<longleftrightarrow> i < length xs \<and> xs ! i = x"
  by (auto simp: in_set_enumerate_eq)


lemma cat_accumulated_confusion:
  assumes "cat_accumulated idx c" "distinct idx" "2 \<le> length idx"
  shows "\<exists>m. confusion c = Some m \<and>
     map length (ov_intersections m) = replicate (length idx) (length idx - 1) \<and>
     map length (ov_unions m) = replicate (length idx) (length idx - 1) \<and>
     (\<forall>r < length idx. \<forall>q < length idx - 1. 0 \<le> ov_unions m ! r ! q)"
proof -
  obtain y pred P where yp: "length pred = length y" "\<forall>row \<in> set y. length row = P"
      "\<forall>row \<in> set pred. length row = P" "category_stats idx y pred = Inr c"
    using assms(1) unfolding cat_accumulated_def by blast
  have m: "confusion c = Some \<lparr>ov_intersections = pair_stat (\<and>) idx y pred,
                                ov_unions = pair_stat (\<or>) idx y pred\<rparr>"
    using category_stats_confusion [OF yp(4) assms(2,3) yp(1,2,3)] .
  have "0 \<le> pair_stat (\<or>) idx y pred ! r ! q" if "r < length idx" "q < length idx - 1" for r q
  proof -
    have "length (pair_stat (\<or>) idx y pred ! r) = length idx - 1"
      using pair_stat_shape(2) [OF assms(2), of "(\<or>)" y pred] pair_stat_shape(1) [OF assms(2), of "(\<or>)" y pred] that(1)
      by simp
    then show ?thesis using that by (intro pair_stat_nonneg) simp_all
  qed
  then show ?thesis
    using m pair_stat_lengths [OF assms(2)] by simp
qed

lemma ov_iu_eq:
  assumes "distinct classes" "2 \<le> length classes" "pages \<noteq> []"
    and "\<forall>p \<in> set pages. \<exists>c. cat p = Some c \<and> cat_accumulated classes c"
  shows "ov_iu cat pages =
     Inr (map (\<lambda>r. map (\<lambda>q. Some (ov_ratio cat pages r q)) [0..<length classes - 1])
              [0..<length classes])"
proof -
  let ?k = "length classes"
  have pg: "\<exists>c m. cat p = Some c \<and> confusion c = Some m \<and>
       map length (ov_intersections m) = replicate ?k (?k - 1) \<and>
       map length (ov_unions m) = replicate ?k (?k - 1) \<and>
       (\<forall>r < ?k. \<forall>q < ?k - 1. 0 \<le> ov_unions m ! r ! q)" if "p \<in> set pages" for p
    using assms(4) that cat_accumulated_confusion [OF _ assms(1,2)] by blast
  have all: "\<forall>x \<in> set pages. cat x \<noteq> None \<and> confusion (the (cat x)) \<noteq> None"
    using pg by fastforce
  have entry: "key (the (confusion (the (cat p)))) ! r ! q = ov_entry key cat r q p"
    if "p \<in> set pages" for p key r q
    using pg [OF that] by (auto simp: ov_entry_def)
  have I: "agg_ov_intersections cat pages =
     Inr (map (\<lambda>r. map (\<lambda>q. ov_total ov_intersections cat pages r q) [0..<?k - 1]) [0..<?k])"
  proof -
    have "stack_sum_mats (map (\<lambda>x. ov_intersections (the (confusion (the (cat x))))) pages) =
      Inr (map (\<lambda>i. map (\<lambda>j. sum_list (map (\<lambda>m. m ! i ! j)
             (map (\<lambda>x. ov_intersections (the (confusion (the (cat x))))) pages))) [0..<?k - 1]) [0..<?k])"
      using assms(3) pg by (intro stack_sum_mats_eq) fastforce+
    moreover have "sum_list (map (\<lambda>m. m ! i ! j)
             (map (\<lambda>x. ov_intersections (the (confusion (the (cat x))))) pages)) =
           ov_total ov_intersections cat pages i j" for i j
      unfolding ov_total_def map_map comp_def
      by (rule arg_cong [where f = sum_list], rule map_cong) (simp_all add: entry)
    ultimately show ?thesis
      using all by (simp add: agg_ov_intersections_def confusion_values_eq)
  qed
  have U: "agg_ov_unions cat pages =
     Inr (map (\<lambda>r. map (\<lambda>q. ov_total ov_unions cat pages r q) [0..<?k - 1]) [0..<?k])"
  proof -
    have "stack_sum_mats (map (\<lambda>x. ov_unions (the (confusion (the (cat x))))) pages) =
      Inr (map (\<lambda>i. map (\<lambda>j. sum_list (map (\<lambda>m. m ! i ! j)
             (map (\<lambda>x. ov_unions (the (confusion (the (cat x))))) pages))) [0..<?k - 1]) [0..<?k])"
      using assms(3) pg by (intro stack_sum_mats_eq) fastforce+
    moreover have "sum_list (map (\<lambda>m. m ! i ! j)
             (map (\<lambda>x. ov_unions (the (confusion (the (cat x))))) pages)) =
           ov_total ov_unions cat pages i j" for i j
      unfolding ov_total_def map_map comp_def
      by (rule arg_cong [where f = sum_list], rule map_cong) (simp_all add: entry)
    ultimately show ?thesis
      using all by (simp add: agg_ov_unions_def confusion_values_eq)
  qed
  have nz: "ov_total ov_unions cat pages r q + smooth \<noteq> 0" if "r < ?k" "q < ?k - 1" for r q
  proof -
    have "0 \<le> ov_total ov_unions cat pages r q"
      unfolding ov_total_def
    proof (rule sum_list_nonneg)
      fix v assume "v \<in> set (map (ov_entry ov_unions cat r q) pages)"
      then obtain p where p: "p \<in> set pages" "v = ov_entry ov_unions cat r q p" by auto
      then show "0 \<le> v" using pg [OF p(1)] that by (auto simp: ov_entry_def)
    qed
    then show ?thesis using smooth_pos by simp
  qed
  have "map2 (map2 (\<lambda>a b. fdiv (a + smooth) (b + smooth)))
          (map (\<lambda>r. map (\<lambda>q. ov_total ov_intersections cat pages r q) [0..<?k - 1]) [0..<?k])
          (map (\<lambda>r. map (\<lambda>q. ov_total ov_unions cat pages r q) [0..<?k - 1]) [0..<?k]) =
        map (\<lambda>r. map (\<lambda>q. Some (ov_ratio cat pages r q)) [0..<?k - 1]) [0..<?k]"
    unfolding map2_map_map using nz by (auto simp: fdiv_def ov_ratio_def)
  then show ?thesis
    by (simp add: ov_iu_def I U comp_def)
qed


lemma map_snd_enumerate_fun: "map (\<lambda>col. f (snd col)) (enumerate n xs) = map f xs"
  by (induction xs arbitrary: n) auto

lemma names_distinct:
  assumes "distinct xs" "inj_on names (set xs)" "\<forall>x \<in> set xs. \<exists>n. names x = Some n"
  shows "distinct (map (\<lambda>x. the (names x)) xs)"
proof -
  have "inj_on (\<lambda>x. the (names x)) (set xs)"
  proof (rule inj_onI)
    fix a b assume ab: "a \<in> set xs" "b \<in> set xs" "the (names a) = the (names b)"
    then have "names a = names b" using assms(3) by (metis option.sel)
    with assms(2) show "a = b" using ab(1,2) by (meson inj_onD)
  qed
  then show ?thesis using assms(1) by (simp add: distinct_map)
qed

lemma table_row_eq:
  assumes "distinct classes" "r < length classes"
    and "\<forall>ci \<in> set classes. \<exists>n. names ci = Some n \<and> n \<noteq> ''Source''"
    and "inj_on names (set classes)"
    and "length iu = length classes" "\<forall>row \<in> set iu. length row = length classes - 1"
  shows "table_row fmt names classes iu (r, classes ! r) =
     Inr ((''Source'', the (names (classes ! r))) #
          map (\<lambda>col. (the (names (snd col)), cell fmt (iu ! r ! fst col)))
              (enumerate 0 (filter (\<lambda>x. x \<noteq> classes ! r) classes)))"
proof -
  define others where "others = filter (\<lambda>x. x \<noteq> classes ! r) classes"
  define g where "g = (\<lambda>col :: nat \<times> nat. (the (names (snd col)), cell fmt (iu ! r ! fst col)))"
  define items where "items = map g (enumerate 0 others)"
  have ci: "classes ! r \<in> set classes" using assms(2) by simp
  obtain src where src: "names (classes ! r) = Some src" using assms(3) ci by blast
  have sub: "set others \<subseteq> set classes" by (auto simp: others_def)
  have n: "length others = length classes - 1"
    unfolding others_def using assms(1) ci by (rule length_filter_neq)
  have lr: "length (iu ! r) = length classes - 1"
    using assms(2,5,6) by simp
  have cols: "mapE (\<lambda>col. case names (snd col) of
                         None \<Rightarrow> Inl KeyError
                       | Some name \<Rightarrow>
                           (case get2 iu r (fst col) of
                              Inl e \<Rightarrow> Inl e
                            | Inr v \<Rightarrow> Inr (name, cell fmt v)))
                (enumerate 0 others) = Inr items"
    unfolding items_def
  proof (rule mapE_all_Inr)
    fix col assume "col \<in> set (enumerate 0 others)"
    then have q: "fst col < length others" and e: "others ! fst col = snd col"
      by (auto simp: in_set_enumerate_eq)
    have cj: "snd col \<in> set others" using nth_mem [OF q] e by simp
    obtain nm where nm: "names (snd col) = Some nm" using assms(3) cj sub by blast
    have "get2 iu r (fst col) = Inr (iu ! r ! fst col)"
      using q n lr assms(2,5) by (simp add: get2_def)
    then show "(case names (snd col) of
                  None \<Rightarrow> Inl KeyError
                | Some name \<Rightarrow>
                    (case get2 iu r (fst col) of
                       Inl e \<Rightarrow> Inl e
                     | Inr v \<Rightarrow> Inr (name, cell fmt v))) = Inr (g col)"
      using nm by (simp add: g_def)
  qed
  have keys: "map fst items = map (\<lambda>x. the (names x)) others"
    using map_snd_enumerate_fun [of "\<lambda>x. the (names x)" 0 others]
    by (simp add: items_def g_def comp_def)
  have d: "distinct (map fst items)"
    unfolding keys
  proof (rule names_distinct)
    show "distinct others" using assms(1) by (simp add: others_def)
    show "inj_on names (set others)" using assms(4) sub by (rule inj_on_subset)
    show "\<forall>x \<in> set others. \<exists>n. names x = Some n" using assms(3) sub by blast
  qed
  have "''Source'' \<notin> set (map (\<lambda>x. the (names x)) others)"
    using assms(3) sub by fastforce
  then have "''Source'' \<notin> set (map fst items)" unfolding keys .
  then have "''Source'' \<notin> fst ` set items" unfolding set_map .
  then have fresh: "fst ` set items \<inter> fst ` set [(''Source'', src)] = {}" by simp
  have "fold dict_set items [(''Source'', src)] = [(''Source'', src)] @ items"
    using d fresh by (rule fold_dict_set_fresh)
  then have "table_row fmt names classes iu (r, classes ! r) = Inr ((''Source'', src) # items)"
    unfolding table_row_def fst_conv snd_conv using src cols by (simp add: others_def)
  then show ?thesis
    using src by (simp add: items_def g_def others_def)
qed

lemma row_lookup:
  fixes g :: "nat \<Rightarrow> string" and names :: "nat \<rightharpoonup> string" and classes :: "nat list"
  assumes "distinct classes" "r < length classes"
    and "\<forall>ci \<in> set classes. \<exists>n. names ci = Some n \<and> n \<noteq> ''Source''"
    and "inj_on names (set classes)"
  defines "others \<equiv> filter (\<lambda>x. x \<noteq> classes ! r) classes"
  defines "row \<equiv> (''Source'', the (names (classes ! r))) #
                   map (\<lambda>col. (the (names (snd col)), g (fst col))) (enumerate 0 others)"
  shows "map fst row = ''Source'' # map (\<lambda>cj. the (names cj)) others"
    and "map_of row ''Source'' = names (classes ! r)"
    and "map_of row (the (names (classes ! r))) = None"
    and "\<And>q. q < length classes - 1 \<Longrightarrow> map_of row (the (names (others ! q))) = Some (g q)"
proof -
  define items where "items = map (\<lambda>col. (the (names (snd col)), g (fst col))) (enumerate 0 others)"
  have row: "row = (''Source'', the (names (classes ! r))) # items"
    by (simp add: row_def items_def)
  have ci: "classes ! r \<in> set classes" using assms(2) by simp
  obtain src where src: "names (classes ! r) = Some src" "src \<noteq> ''Source''"
    using assms(3) ci by blast
  have sub: "set others \<subseteq> set classes" by (auto simp: others_def)
  have neq: "\<And>cj. cj \<in> set others \<Longrightarrow> cj \<noteq> classes ! r" by (simp add: others_def)
  have n: "length others = length classes - 1"
    unfolding others_def using assms(1) ci by (rule length_filter_neq)
  have keys: "map fst items = map (\<lambda>x. the (names x)) others"
    using map_snd_enumerate_fun [of "\<lambda>x. the (names x)" 0 others]
    by (simp add: items_def comp_def)
  have d: "distinct (map fst items)"
    unfolding keys
  proof (rule names_distinct)
    show "distinct others" using assms(1) by (simp add: others_def)
    show "inj_on names (set others)" using assms(4) sub by (rule inj_on_subset)
    show "\<forall>x \<in> set others. \<exists>n. names x = Some n" using assms(3) sub by blast
  qed
  show "map fst row = ''Source'' # map (\<lambda>cj. the (names cj)) others"
    by (simp only: row list.map fst_conv keys)
  show "map_of row ''Source'' = names (classes ! r)"
    using src by (simp add: row)
  have self: "src \<notin> fst ` set items"
  proof
    assume "src \<in> fst ` set items"
    then have "src \<in> set (map fst items)" unfolding set_map .
    then obtain cj where cj: "cj \<in> set others" "src = the (names cj)"
      unfolding keys by auto
    obtain nm where nm: "names cj = Some nm" using assms(3) sub cj(1) by blast
    have "names cj = names (classes ! r)" using nm cj(2) src(1) by simp
    then have "cj = classes ! r"
      using assms(4) sub cj(1) ci by (meson inj_onD subsetD)
    then show False using neq [OF cj(1)] by simp
  qed
  have "map_of items src = None"
    using self by (simp add: map_of_eq_None_iff)
  then show "map_of row (the (names (classes ! r))) = None"
    using src by (simp add: row)
  fix q assume q: "q < length classes - 1"
  have ql: "q < length others" using q n by simp
  then have cj: "others ! q \<in> set others" by (rule nth_mem)
  obtain nm where nm: "names (others ! q) = Some nm" "nm \<noteq> ''Source''"
    using assms(3) sub cj by blast
  have "items ! q = (nm, g q)"
    using ql nm by (simp add: items_def nth_enumerate_eq)
  moreover have "q < length items" using ql by (simp add: items_def)
  ultimately have "(nm, g q) \<in> set items" by (metis nth_mem)
  then have "map_of items nm = Some (g q)"
    using d by (intro map_of_is_SomeI)
  then show "map_of row (the (names (others ! q))) = Some (g q)"
    using nm by (simp add: row)
qed


text \<open>
  Claim C4. For a category of at least two distinct classes, named apart and none
  named \<open>Source\<close>, and a non-empty list of pages holding accumulated statistics of the
  category, \<open>_compute_overlap_iou\<close> returns one row per class. The keys of row \<open>r\<close> are
  \<open>Source\<close> and the names of the other classes in their order; the name of the class of
  the row itself is no key. Under the name of the \<open>q\<close>-th other class stands the
  formatted quotient of the summed intersections plus \<open>smooth\<close> by the summed unions
  plus \<open>smooth\<close> at \<open>(r, q)\<close>, or the empty string when that quotient is 1.
\<close>

theorem overlap_table:
  assumes "distinct classes" "2 \<le> length classes" "pages \<noteq> []"
    and "\<forall>p \<in> set pages. \<exists>c. cat p = Some c \<and> cat_accumulated classes c"
    and "\<forall>ci \<in> set classes. \<exists>n. names ci = Some n \<and> n \<noteq> ''Source''"
    and "inj_on names (set classes)"
  shows "\<exists>table. compute_overlap_iou fmt names pages classes cat = Inr table \<and>
     length table = length classes \<and>
     (\<forall>r < length classes.
        map fst (table ! r) =
          ''Source'' # map (\<lambda>cj. the (names cj)) (filter (\<lambda>x. x \<noteq> classes ! r) classes) \<and>
        map_of (table ! r) ''Source'' = names (classes ! r) \<and>
        map_of (table ! r) (the (names (classes ! r))) = None \<and>
        (\<forall>q < length classes - 1.
           map_of (table ! r) (the (names (filter (\<lambda>x. x \<noteq> classes ! r) classes ! q))) =
             Some (if ov_ratio cat pages r q = 1 then []
                   else fmt (Some (ov_ratio cat pages r q)))))"
proof -
  define k where "k = length classes"
  define iu where
    "iu = map (\<lambda>r. map (\<lambda>q. Some (ov_ratio cat pages r q)) [0..<k - 1]) [0..<k]"
  define row where
    "row = (\<lambda>r. (''Source'', the (names (classes ! r))) #
                 map (\<lambda>col. (the (names (snd col)), cell fmt (iu ! r ! fst col)))
                     (enumerate 0 (filter (\<lambda>x. x \<noteq> classes ! r) classes)))"
  define table where "table = map (\<lambda>rc. row (fst rc)) (enumerate 0 classes)"
  have iu: "ov_iu cat pages = Inr iu"
    unfolding iu_def k_def using ov_iu_eq [OF assms(1-4)] .
  have shape: "length iu = length classes" "\<forall>r \<in> set iu. length r = length classes - 1"
    by (auto simp: iu_def k_def)
  have cellv: "cell fmt (iu ! r ! q) =
      (if ov_ratio cat pages r q = 1 then [] else fmt (Some (ov_ratio cat pages r q)))"
    if "r < length classes" "q < length classes - 1" for r q
    using that by (simp add: iu_def k_def cell_def)
  have "mapE (table_row fmt names classes iu) (enumerate 0 classes) = Inr table"
    unfolding table_def
  proof (rule mapE_all_Inr)
    fix rc assume "rc \<in> set (enumerate 0 classes)"
    then have r: "fst rc < length classes" and e: "rc = (fst rc, classes ! fst rc)"
      by (auto simp: in_set_enumerate_eq)
    have "table_row fmt names classes iu (fst rc, classes ! fst rc) = Inr (row (fst rc))"
      unfolding row_def using table_row_eq [OF assms(1) r assms(5,6) shape] .
    then show "table_row fmt names classes iu rc = Inr (row (fst rc))"
      using e by simp
  qed
  then have tab: "compute_overlap_iou fmt names pages classes cat = Inr table"
    by (simp add: compute_overlap_iou_def iu)
  have len: "length table = length classes"
    by (simp add: table_def)
  have nth: "table ! r = row r" if "r < length classes" for r
    using that by (simp add: table_def nth_enumerate_eq)
  have props: "map fst (table ! r) =
          ''Source'' # map (\<lambda>cj. the (names cj)) (filter (\<lambda>x. x \<noteq> classes ! r) classes) \<and>
        map_of (table ! r) ''Source'' = names (classes ! r) \<and>
        map_of (table ! r) (the (names (classes ! r))) = None \<and>
        (\<forall>q < length classes - 1.
           map_of (table ! r) (the (names (filter (\<lambda>x. x \<noteq> classes ! r) classes ! q))) =
             Some (if ov_ratio cat pages r q = 1 then []
                   else fmt (Some (ov_ratio cat pages r q))))"
    if r: "r < length classes" for r
  proof -
    note l = row_lookup [OF assms(1) r assms(5,6), where g = "\<lambda>q. cell fmt (iu ! r ! q)"]
    have t: "table ! r = (''Source'', the (names (classes ! r))) #
                 map (\<lambda>col. (the (names (snd col)), cell fmt (iu ! r ! fst col)))
                     (enumerate 0 (filter (\<lambda>x. x \<noteq> classes ! r) classes))"
      using nth [OF r] by (simp only: row_def)
    have "\<forall>q < length classes - 1.
           map_of (table ! r) (the (names (filter (\<lambda>x. x \<noteq> classes ! r) classes ! q))) =
             Some (if ov_ratio cat pages r q = 1 then []
                   else fmt (Some (ov_ratio cat pages r q)))"
    proof (intro allI impI)
      fix q assume q: "q < length classes - 1"
      show "map_of (table ! r) (the (names (filter (\<lambda>x. x \<noteq> classes ! r) classes ! q))) =
             Some (if ov_ratio cat pages r q = 1 then []
                   else fmt (Some (ov_ratio cat pages r q)))"
        unfolding t using l(4) [OF q] cellv [OF r q] by (simp only:)
    qed
    then show ?thesis
      unfolding t using l(1) l(2) l(3) by blast
  qed
  show ?thesis
    using tab len props by blast
qed


lemma scen_page_eq: "page_stats three_idx [] scen_y scen_y = Inr scen_page"
  by code_simp

lemma scen_cat_eq: "category_stats three_idx scen_y scen_y = Inr scen_cat"
  by code_simp

lemma cat_accumulated_scen: "cat_accumulated three_idx scen_cat"
proof -
  have "length scen_y = length scen_y \<and> (\<forall>row \<in> set scen_y. length row = 2) \<and>
        (\<forall>row \<in> set scen_y. length row = 2)"
    by (simp add: scen_y_def)
  then show ?thesis
    unfolding cat_accumulated_def using scen_cat_eq by blast
qed

theorem overlap_table_witness:
  "distinct three_idx \<and> 2 \<le> length three_idx \<and> [scen_page] \<noteq> [] \<and>
   baselines scen_page = Some scen_cat \<and> cat_accumulated three_idx scen_cat \<and>
   map demo_names three_idx = [Some ''a'', Some ''b'', Some ''c''] \<and>
   inj_on demo_names (set three_idx) \<and>
   (\<exists>table. compute_overlap_iou mark_fmt demo_names [scen_page] three_idx baselines = Inr table \<and>
      map_of (table ! 0) ''a'' = None \<and>
      map_of (table ! 0) ''b'' = Some [] \<and>
      map_of (table ! 0) ''c'' = Some ''#'')"
proof -
  have h1: "distinct three_idx" by (simp add: three_idx_def)
  have h2: "2 \<le> length three_idx" by (simp add: three_idx_def)
  have h3: "[scen_page] \<noteq> []" by simp
  have h4: "\<forall>p \<in> set [scen_page]. \<exists>c. baselines p = Some c \<and> cat_accumulated three_idx c"
    using cat_accumulated_scen by (simp add: scen_page_def)
  have h5: "\<forall>ci \<in> set three_idx. \<exists>n. demo_names ci = Some n \<and> n \<noteq> ''Source''"
    by (simp add: three_idx_def demo_names_def)
  have h6: "inj_on demo_names (set three_idx)"
    by (simp add: three_idx_def demo_names_def inj_on_def)
  obtain table where t: "compute_overlap_iou mark_fmt demo_names [scen_page] three_idx baselines = Inr table"
    and p: "\<forall>r < length three_idx.
        map_of (table ! r) (the (demo_names (three_idx ! r))) = None \<and>
        (\<forall>q < length three_idx - 1.
           map_of (table ! r) (the (demo_names (filter (\<lambda>x. x \<noteq> three_idx ! r) three_idx ! q))) =
             Some (if ov_ratio baselines [scen_page] r q = 1 then []
                   else mark_fmt (Some (ov_ratio baselines [scen_page] r q))))"
    using overlap_table [OF h1 h2 h3 h4 h5 h6, of mark_fmt] by blast
  have r0: "ov_ratio baselines [scen_page] 0 0 = 1"
    by (simp add: ov_ratio_def ov_total_def ov_entry_def scen_page_def scen_cat_def smooth_def)
  have r1: "ov_ratio baselines [scen_page] 0 (Suc 0) \<noteq> 1"
    by (simp add: ov_ratio_def ov_total_def ov_entry_def scen_page_def scen_cat_def smooth_def)
  have l: "0 < length three_idx" "0 < length three_idx - 1" "Suc 0 < length three_idx - 1"
    by (simp_all add: three_idx_def)
  have a: "map_of (table ! 0) (the (demo_names (three_idx ! 0))) = None"
    using p l(1) by blast
  have b: "map_of (table ! 0) (the (demo_names (filter (\<lambda>x. x \<noteq> three_idx ! 0) three_idx ! 0))) =
             Some (if ov_ratio baselines [scen_page] 0 0 = 1 then []
                   else mark_fmt (Some (ov_ratio baselines [scen_page] 0 0)))"
    using p l(1) l(2) by blast
  have c: "map_of (table ! 0)
             (the (demo_names (filter (\<lambda>x. x \<noteq> three_idx ! 0) three_idx ! Suc 0))) =
             Some (if ov_ratio baselines [scen_page] 0 (Suc 0) = 1 then []
                   else mark_fmt (Some (ov_ratio baselines [scen_page] 0 (Suc 0))))"
    using p l(1) l(3) by blast
  have a': "map_of (table ! 0) ''a'' = None"
    using a by (simp add: three_idx_def demo_names_def)
  have b': "map_of (table ! 0) ''b'' = Some []"
    using b r0 by (simp add: three_idx_def demo_names_def)
  have c': "map_of (table ! 0) ''c'' = Some ''#''"
    using c r1 by (simp add: three_idx_def demo_names_def mark_fmt_def)
  have g1: "baselines scen_page = Some scen_cat"
    by (simp add: scen_page_def)
  have g2: "map demo_names three_idx = [Some ''a'', Some ''b'', Some ''c'']"
    by (simp add: three_idx_def demo_names_def)
  show ?thesis using h1 h2 h3 h6 g1 g2 cat_accumulated_scen t a' b' c' by blast
qed

section \<open>The pages of the loop are accumulated pages\<close>

text \<open>
  Every page that the loop appends is the result of \<open>page_stats\<close> on two tensors with
  as many rows as the ground truth of its batch has classes, over at least one pixel:
  the hypothesis of the theorems on the per-class metrics holds for the pages of a
  run whose batches have one number of classes.
\<close>

lemma try_body_accumulated:
  assumes "try_body nn t l r b = Inr p"
  shows "accumulated l r (length (snd b)) p"
proof -
  obtain pred where pred: "nn (fst b) = Inr pred"
    using assms by (auto simp: try_body_def split: sum.splits)
  obtain y' where y': "interpolate (size_h pred, size_w pred) (snd b) = Inr y'"
    using assms pred by (auto simp: try_body_def split: sum.splits)
  obtain pred' where pred': "squeeze_view (binarize t pred) = Inr pred'"
    using assms pred y' by (auto simp: try_body_def split: sum.splits)
  let ?y = "view_rows (to_bool y')"
  have p: "page_stats l r ?y pred' = Inr p"
    using assms pred y' pred' by (simp add: try_body_def)
  note sh = interpolate_shape [OF y']
  have ne: "snd b \<noteq> []"
    using y' by (auto simp: interpolate_def size_h_def split: if_splits)
  have len: "length ?y = length (snd b)"
    using sh(1) by (simp add: view_rows_to_bool)
  have rows: "\<forall>row \<in> set ?y. length row = size_h pred * size_w pred"
  proof
    fix row assume "row \<in> set ?y"
    then obtain g where g: "g \<in> set y'" "row = map (\<lambda>v. v \<noteq> 0) (concat g)"
      by (auto simp: view_rows_to_bool)
    have "length (concat g) = length g * size_w pred"
      using sh(5) [OF g(1)] by (intro length_concat_rect) simp
    then show "length row = size_h pred * size_w pred"
      using g sh(4) [OF g(1)] by simp
  qed
  have "?y \<noteq> []" using len ne by auto
  then have s1: "size1 ?y = size_h pred * size_w pred"
    using rows by (cases ?y) (auto simp: size1_def)
  have "0 < size1 ?y" using s1 sh(2,3) by simp
  then show ?thesis
    unfolding accumulated_def using len rows s1 p by auto
qed

lemma segtest_loop_pages:
  "segtest_loop nn t l r ds (pages, n) = Inr (pages', n') \<Longrightarrow>
   \<forall>p \<in> set pages'. p \<in> set pages \<or> (\<exists>b \<in> set ds. try_body nn t l r b = Inr p)"
proof (induction ds arbitrary: pages n)
  case Nil
  then show ?case by simp
next
  case (Cons b ds)
  show ?case
  proof (cases "try_body nn t l r b")
    case (Inr q)
    then have "segtest_loop nn t l r ds (pages @ [q], n) = Inr (pages', n')"
      using Cons.prems by simp
    from Cons.IH [OF this] Inr show ?thesis by auto
  next
    case (Inl e)
    then have "\<exists>m. segtest_loop nn t l r ds (pages, m) = Inr (pages', n')"
      using Cons.prems by (cases e) auto
    then obtain m where "segtest_loop nn t l r ds (pages, m) = Inr (pages', n')" ..
    from Cons.IH [OF this] show ?thesis by auto
  qed
qed

lemma segtest_loop_accumulated:
  assumes "segtest_loop nn t l r ds ([], n) = Inr (pages, n')"
    and "\<forall>b \<in> set ds. length (snd b) = C"
  shows "\<forall>p \<in> set pages. accumulated l r C p"
proof
  fix p assume "p \<in> set pages"
  then obtain b where b: "b \<in> set ds" "try_body nn t l r b = Inr p"
    using segtest_loop_pages [OF assms(1)] by auto
  from try_body_accumulated [OF b(2)] assms(2) b(1) show "accumulated l r C p" by simp
qed

end
